theory Spec2Isabelle
  imports Main "HOL-Library.Word"
begin

unbundle bit_operations_syntax

section \<open>Data model of \<^verbatim>\<open>weiroll/client.py\<close>\<close>

text \<open>
  Byte strings (\<^verbatim>\<open>bytes\<close>, \<^verbatim>\<open>HexBytes\<close>) are lists of 8-bit words. Python's
  integers (slot numbers, flags) are \<^typ>\<open>int\<close>.
\<close>

type_synonym byte = "8 word"
type_synonym bytes = "byte list"

text \<open>\<^verbatim>\<open>class CommandType(IntEnum)\<close>\<close>

datatype CommandType = CT_CALL | CT_RAWCALL | CT_SUBPLAN

text \<open>
  \<^verbatim>\<open>Command = namedtuple("Command", "call,type")\<close>. A named tuple compares and hashes by
  its fields; \<^verbatim>\<open>FunctionCall\<close> defines no \<^verbatim>\<open>__eq__\<close>, so the call field compares by
  object identity. Wherever the source uses a Command as a dictionary key or a set
  member, the model uses the pair of the call object's identity and the command type.
\<close>

type_synonym cmdkey = "nat \<times> CommandType"

text \<open>
  The argument values: \<^verbatim>\<open>LiteralValue(param, value)\<close>, \<^verbatim>\<open>ReturnValue(param, command)\<close>,
  \<^verbatim>\<open>StateValue()\<close>, \<^verbatim>\<open>SubplanValue(planner)\<close> and the bare \<^verbatim>\<open>Value(param)\<close>.
  A planner object is referred to by its index in the heap of planners.
\<close>

datatype arg =
    LiteralValue string bytes
  | ReturnValue string cmdkey
  | StateValue
  | SubplanValue nat
  | Value string

fun param :: "arg \<Rightarrow> string" where
  "param (LiteralValue p v) = p"
| "param (ReturnValue p k) = p"
| "param StateValue = ''bytes[]''"
| "param (SubplanValue q) = ''bytes[]''"
| "param (Value p) = p"

text \<open>
  \<^verbatim>\<open>class FunctionCall\<close>, with the two fields of its contract and the two fields of its
  fragment that the planner reads: \<^verbatim>\<open>contract.address\<close>, \<^verbatim>\<open>fragment.signature\<close>
  (both already as the bytes \<^verbatim>\<open>HexBytes\<close> makes of the hex string) and
  \<^verbatim>\<open>fragment.outputs\<close>. \<open>ident\<close> is the identity of the Python object.
\<close>

record FunctionCall =
  ident :: nat
  contract_address :: bytes
  flags :: int
  fragment_signature :: bytes
  fragment_outputs :: "string list"
  args :: "arg list"
  callvalue :: "(string \<times> bytes) option"

type_synonym command = "FunctionCall \<times> CommandType"

definition key :: "command \<Rightarrow> cmdkey" where
  "key c = (ident (fst c), snd c)"

text \<open>The heap of planner objects: planner \<open>p\<close> owns the command list \<open>h ! p\<close>.\<close>

type_synonym heap = "command list list"

definition planner_commands :: "heap \<Rightarrow> nat \<Rightarrow> command list" where
  "planner_commands h p = (if p < length h then h ! p else [])"

text \<open>Every \<^verbatim>\<open>raise\<close> of the planner, and the exceptions of the built-ins it calls.\<close>

datatype error =
    PlannerContainsItself
  | CallValueMissing
  | ReturnNotVisible
  | UnknownArgumentType
  | KeyError
  | StopIteration
  | IndexError
  | AmbiguousReturn
  | NegativeInteger
  | ValueOutOfBounds
  | RecursionError
  | OnlySubplansTakeSubplanValue
  | SubplanOnePlannerArgument
  | SubplanOneStateArgument
  | SubplanNeedsPlannerAndState
  | SubplanBadReturn
  | ReplaceStateBadReturn

text \<open>\<^verbatim>\<open>class CommandFlags(IntFlag)\<close>\<close>

definition DELEGATECALL :: int where "DELEGATECALL = 0x00"
definition CALL :: int where "CALL = 0x01"
definition STATICCALL :: int where "STATICCALL = 0x02"
definition CALL_WITH_VALUE :: int where "CALL_WITH_VALUE = 0x03"
definition CALLTYPE_MASK :: int where "CALLTYPE_MASK = 0x03"
definition EXTENDED_COMMAND :: int where "EXTENDED_COMMAND = 0x40"
definition TUPLE_RETURN :: int where "TUPLE_RETURN = 0x80"

section \<open>The visibility pass: \<^verbatim>\<open>_preplan\<close>\<close>

text \<open>
  The four objects \<^verbatim>\<open>_preplan\<close> mutates. \<^verbatim>\<open>literalVisibility\<close> is a dict that
  \<^verbatim>\<open>plan\<close> later iterates, so its insertion order is kept: an association list in
  which assigning to a present key keeps the key's position.
\<close>

record PreplanState =
  cvis :: "cmdkey \<rightharpoonup> cmdkey"
  lvis :: "(bytes \<times> cmdkey) list"
  seen :: "cmdkey set"
  planners :: "nat set"

fun dict_set :: "('k \<times> 'v) list \<Rightarrow> 'k \<Rightarrow> 'v \<Rightarrow> ('k \<times> 'v) list" where
  "dict_set [] k v = [(k, v)]"
| "dict_set ((k', v') # kvs) k v =
     (if k' = k then (k, v) # kvs else (k', v') # dict_set kvs k v)"

text \<open>
  The argument list a command is planned with: the call's arguments, preceded by the
  call value when the call type is \<^verbatim>\<open>CALL_WITH_VALUE\<close>.
\<close>

definition inargs :: "command \<Rightarrow> error + arg list" where
  "inargs c =
     (if flags (fst c) AND CALLTYPE_MASK = CALL_WITH_VALUE then
        (case callvalue (fst c) of
           None \<Rightarrow> Inl CallValueMissing
         | Some (p, v) \<Rightarrow> Inr (LiteralValue p v # args (fst c)))
      else Inr (args (fst c)))"

text \<open>
  \<^verbatim>\<open>_preplan\<close> is recursive through subplans, one nested call for every planner
  entered. The first argument is the number of nested calls of \<^verbatim>\<open>_preplan\<close> for which
  the call stack has room; a call beyond it is \<open>RecursionError\<close>. It is not the
  interpreter's recursion limit, which counts every frame of the stack: the frames
  below \<^verbatim>\<open>plan\<close> and those of the functions called from the loop have their share of
  that limit. \<open>preplan_commands\<close> is the loop over \<^verbatim>\<open>self.commands\<close>,
  \<open>preplan_args\<close> the loop over \<^verbatim>\<open>inargs\<close>. A read-only subplan (no declared output)
  is walked with a copy of \<^verbatim>\<open>seen\<close>: what the walk adds is dropped afterwards.
\<close>

fun preplan :: "nat \<Rightarrow> heap \<Rightarrow> nat \<Rightarrow> PreplanState \<Rightarrow> error + PreplanState"
  and preplan_commands :: "nat \<Rightarrow> heap \<Rightarrow> command list \<Rightarrow> PreplanState \<Rightarrow> error + PreplanState"
  and preplan_args :: "nat \<Rightarrow> heap \<Rightarrow> command \<Rightarrow> arg list \<Rightarrow> PreplanState \<Rightarrow> error + PreplanState"
where
  "preplan 0 h p st = Inl RecursionError"
| "preplan (Suc n) h p st =
     (if p \<in> planners st then Inl PlannerContainsItself
      else preplan_commands n h (planner_commands h p) (st\<lparr>planners := insert p (planners st)\<rparr>))"
| "preplan_commands n h [] st = Inr st"
| "preplan_commands n h (c # cs) st =
     (case inargs c of
        Inl e \<Rightarrow> Inl e
      | Inr ias \<Rightarrow>
          (case preplan_args n h c ias st of
             Inl e \<Rightarrow> Inl e
           | Inr st' \<Rightarrow> preplan_commands n h cs (st'\<lparr>seen := insert (key c) (seen st')\<rparr>)))"
| "preplan_args n h c [] st = Inr st"
| "preplan_args n h c (a # as) st =
     (case a of
        ReturnValue p k \<Rightarrow>
          (if k \<notin> seen st then Inl ReturnNotVisible
           else preplan_args n h c as (st\<lparr>cvis := (cvis st)(k \<mapsto> key c)\<rparr>))
      | LiteralValue p v \<Rightarrow>
          preplan_args n h c as (st\<lparr>lvis := dict_set (lvis st) v (key c)\<rparr>)
      | SubplanValue q \<Rightarrow>
          (case preplan n h q st of
             Inl e \<Rightarrow> Inl e
           | Inr st' \<Rightarrow>
               preplan_args n h c as
                 (if fragment_outputs (fst c) = [] then st'\<lparr>seen := seen st\<rparr> else st'))
      | StateValue \<Rightarrow> preplan_args n h c as st
      | Value p \<Rightarrow> Inl UnknownArgumentType)"

section \<open>The encoder: \<^verbatim>\<open>_buildCommandArgs\<close> and \<^verbatim>\<open>_buildCommands\<close>\<close>

text \<open>\<^verbatim>\<open>PlannerState\<close>, the named tuple of the objects the encoder mutates.\<close>

record PlannerState =
  returnSlotMap :: "cmdkey \<rightharpoonup> int"
  literalSlotMap :: "bytes \<rightharpoonup> int"
  freeSlots :: "int list"
  stateExpirations :: "cmdkey \<Rightarrow> int list"
  commandVisibility :: "cmdkey \<rightharpoonup> cmdkey"
  state :: "bytes list"

text \<open>\<^verbatim>\<open>padArray(a, length, padValue)\<close>: a negative repeat count gives the empty list.\<close>

definition padArray :: "'a list \<Rightarrow> nat \<Rightarrow> 'a \<Rightarrow> 'a list" where
  "padArray a len padValue = a @ replicate (len - length a) padValue"

text \<open>
  \<^verbatim>\<open>HexBytes\<close> of a Python integer (the external library \<^verbatim>\<open>hexbytes\<close>): the shortest
  big-endian byte string of a non-negative integer, one zero byte for 0, and
  \<^verbatim>\<open>ValueError\<close> for a negative one.
\<close>

function int_to_big_endian :: "nat \<Rightarrow> bytes" where
  "int_to_big_endian n =
     (if n < 256 then [of_nat n] else int_to_big_endian (n div 256) @ [of_nat (n mod 256)])"
  by pat_completeness auto
termination
  by (relation "measure id") auto

declare int_to_big_endian.simps [simp del]

definition HexBytes_int :: "int \<Rightarrow> error + bytes" where
  "HexBytes_int i = (if i < 0 then Inl NegativeInteger else Inr (int_to_big_endian (nat i)))"

text \<open>
  \<^verbatim>\<open>hexConcat(*items)\<close>: an item is a hex string (here already its bytes), an integer,
  or a list of items, which is concatenated recursively.
\<close>

datatype hexitem = HexString bytes | Integer int | ItemList "hexitem list"

fun item_bytes :: "hexitem \<Rightarrow> error + bytes"
  and hexConcat :: "hexitem list \<Rightarrow> error + bytes"
where
  "item_bytes (HexString b) = Inr b"
| "item_bytes (Integer i) = HexBytes_int i"
| "item_bytes (ItemList xs) = hexConcat xs"
| "hexConcat [] = Inr []"
| "hexConcat (x # xs) =
     (case item_bytes x of
        Inl e \<Rightarrow> Inl e
      | Inr b \<Rightarrow> (case hexConcat xs of Inl e \<Rightarrow> Inl e | Inr r \<Rightarrow> Inr (b @ r)))"

text \<open>
  \<^verbatim>\<open>eth_abi_encode_single("bytes32[]", subcommands)[32:]\<close> (the external library
  \<^verbatim>\<open>eth_abi\<close>): the ABI encoding of the array without its offset and length words, that
  is every element padded on the right with zeros to 32 bytes; an element longer than
  32 bytes is refused.
\<close>

fun encode_bytes32_array :: "bytes list \<Rightarrow> error + bytes" where
  "encode_bytes32_array [] = Inr []"
| "encode_bytes32_array (w # ws) =
     (if length w > 32 then Inl ValueOutOfBounds
      else (case encode_bytes32_array ws of
              Inl e \<Rightarrow> Inl e
            | Inr r \<Rightarrow> Inr (w @ replicate (32 - length w) 0 @ r)))"

text \<open>
  The slot of one argument, as the loop body of \<^verbatim>\<open>_buildCommandArgs\<close> computes it.
  \<open>dyn\<close> stands for \<^verbatim>\<open>isDynamicType\<close>, which belongs to the ABI library: the model
  takes it as a parameter.
\<close>

definition arg_slot ::
  "(string \<Rightarrow> bool) \<Rightarrow> (cmdkey \<rightharpoonup> int) \<Rightarrow> (bytes \<rightharpoonup> int) \<Rightarrow> bytes list \<Rightarrow> arg \<Rightarrow> error + int" where
  "arg_slot dyn rsm lsm st a =
     (case (case a of
              ReturnValue p k \<Rightarrow> (case rsm k of None \<Rightarrow> Inl KeyError | Some s \<Rightarrow> Inr s)
            | LiteralValue p v \<Rightarrow> (case lsm v of None \<Rightarrow> Inl KeyError | Some s \<Rightarrow> Inr s)
            | StateValue \<Rightarrow> Inr 0xFE
            | SubplanValue q \<Rightarrow> Inr (int (length st) - 1)
            | Value p \<Rightarrow> Inl UnknownArgumentType) of
        Inl e \<Rightarrow> Inl e
      | Inr slot \<Rightarrow> Inr (if dyn (param a) then slot OR 0x80 else slot))"

fun arg_slots ::
  "(string \<Rightarrow> bool) \<Rightarrow> (cmdkey \<rightharpoonup> int) \<Rightarrow> (bytes \<rightharpoonup> int) \<Rightarrow> bytes list \<Rightarrow> arg list \<Rightarrow> error + int list" where
  "arg_slots dyn rsm lsm st [] = Inr []"
| "arg_slots dyn rsm lsm st (a # as) =
     (case arg_slot dyn rsm lsm st a of
        Inl e \<Rightarrow> Inl e
      | Inr s \<Rightarrow> (case arg_slots dyn rsm lsm st as of Inl e \<Rightarrow> Inl e | Inr r \<Rightarrow> Inr (s # r)))"

definition buildCommandArgs ::
  "(string \<Rightarrow> bool) \<Rightarrow> command \<Rightarrow> (cmdkey \<rightharpoonup> int) \<Rightarrow> (bytes \<rightharpoonup> int) \<Rightarrow> bytes list \<Rightarrow> error + int list" where
  "buildCommandArgs dyn c rsm lsm st =
     (case inargs c of Inl e \<Rightarrow> Inl e | Inr ias \<Rightarrow> arg_slots dyn rsm lsm st ias)"

text \<open>
  The return slot of a command (the lines from \<^verbatim>\<open>ret = 0xFF\<close> to \<^verbatim>\<open>ret = 0xFE\<close>
  of \<^verbatim>\<open>_buildCommands\<close>): the slot byte, and the planner state after the allocation.
\<close>

definition return_slot ::
  "(string \<Rightarrow> bool) \<Rightarrow> command \<Rightarrow> PlannerState \<Rightarrow> error + (int \<times> PlannerState)" where
  "return_slot dyn c ps =
     (case commandVisibility ps (key c) of
        Some expiryCommand \<Rightarrow>
          (if snd c = CT_RAWCALL \<or> snd c = CT_SUBPLAN then Inl AmbiguousReturn
           else
             let ret = (if freeSlots ps \<noteq> [] then last (freeSlots ps) else int (length (state ps)));
                 ps1 = ps\<lparr>freeSlots := (if freeSlots ps \<noteq> [] then butlast (freeSlots ps) else freeSlots ps),
                          returnSlotMap := (returnSlotMap ps)(key c \<mapsto> ret),
                          stateExpirations := (stateExpirations ps)
                            (expiryCommand := stateExpirations ps expiryCommand @ [ret]),
                          state := (if ret = int (length (state ps)) then state ps @ [[]] else state ps)\<rparr>
             in Inr (if (fragment_outputs (fst c) \<noteq> [] \<and> dyn (hd (fragment_outputs (fst c))))
                        \<or> flags (fst c) AND TUPLE_RETURN \<noteq> 0
                     then ret OR 0x80 else ret, ps1))
      | None \<Rightarrow>
          (if (snd c = CT_RAWCALL \<or> snd c = CT_SUBPLAN)
              \<and> fragment_outputs (fst c) \<noteq> [] \<and> length (fragment_outputs (fst c)) = 1
           then Inr (0xFE, ps) else Inr (0xFF, ps)))"

text \<open>
  The words of one instruction, from the flags, the argument slots and the return slot
  (the final \<^verbatim>\<open>if\<close> of the loop body).
\<close>

definition encode_words :: "command \<Rightarrow> int \<Rightarrow> int list \<Rightarrow> int \<Rightarrow> error + bytes list" where
  "encode_words c fl slots ret =
     (if fl AND EXTENDED_COMMAND = EXTENDED_COMMAND then
        (case hexConcat [HexString (fragment_signature (fst c)), Integer fl,
                         ItemList (map Integer (replicate 6 0xFF)), Integer ret,
                         HexString (contract_address (fst c))] of
           Inl e \<Rightarrow> Inl e
         | Inr w1 \<Rightarrow>
             (case hexConcat [ItemList (map Integer (padArray slots 32 0xFF))] of
                Inl e \<Rightarrow> Inl e
              | Inr w2 \<Rightarrow> Inr [w1, w2]))
      else
        (case hexConcat [HexString (fragment_signature (fst c)), Integer fl,
                         ItemList (map Integer (padArray slots 6 0xFF)), Integer ret,
                         HexString (contract_address (fst c))] of
           Inl e \<Rightarrow> Inl e
         | Inr w \<Rightarrow> Inr [w]))"

text \<open>
  The loop body of \<^verbatim>\<open>_buildCommands\<close> after the subplan has been built: resolve the
  arguments, set the extended flag, release the slots that expire at this command,
  allocate the return slot, and encode.
\<close>

definition encode_command ::
  "(string \<Rightarrow> bool) \<Rightarrow> command \<Rightarrow> PlannerState \<Rightarrow> error + (bytes list \<times> PlannerState)" where
  "encode_command dyn c ps =
     (case buildCommandArgs dyn c (returnSlotMap ps) (literalSlotMap ps) (state ps) of
        Inl e \<Rightarrow> Inl e
      | Inr slots \<Rightarrow>
          let fl = (if length slots > 6 then flags (fst c) OR EXTENDED_COMMAND else flags (fst c));
              ps1 = ps\<lparr>freeSlots := freeSlots ps @ stateExpirations ps (key c)\<rparr>
          in (case return_slot dyn c ps1 of
                Inl e \<Rightarrow> Inl e
              | Inr (ret, ps2) \<Rightarrow>
                  (case encode_words c fl slots ret of
                     Inl e \<Rightarrow> Inl e
                   | Inr ws \<Rightarrow> Inr (ws, ps2))))"

text \<open>\<^verbatim>\<open>next(arg for arg in command.call.args if isinstance(arg, SubplanValue)).planner\<close>\<close>

fun first_subplan :: "arg list \<Rightarrow> nat option" where
  "first_subplan [] = None"
| "first_subplan (SubplanValue q # as) = Some q"
| "first_subplan (a # as) = first_subplan as"

text \<open>
  \<^verbatim>\<open>_buildCommands\<close>, with a bound of the same kind as that of \<open>preplan\<close>: the
  number of nested calls of \<^verbatim>\<open>_buildCommands\<close> for which the call stack has room.
  \<open>build_loop\<close> is the loop over \<^verbatim>\<open>self.commands\<close>; a \<^verbatim>\<open>SUBPLAN\<close> command first
  builds its subplanner against the same planner state, stores the serialised
  commands in a new last state slot and releases that slot.
\<close>

fun buildCommands ::
    "(string \<Rightarrow> bool) \<Rightarrow> nat \<Rightarrow> heap \<Rightarrow> nat \<Rightarrow> PlannerState \<Rightarrow> error + (bytes list \<times> PlannerState)"
  and build_loop ::
    "(string \<Rightarrow> bool) \<Rightarrow> nat \<Rightarrow> heap \<Rightarrow> command list \<Rightarrow> PlannerState \<Rightarrow> error + (bytes list \<times> PlannerState)"
where
  "buildCommands dyn 0 h p ps = Inl RecursionError"
| "buildCommands dyn (Suc n) h p ps = build_loop dyn n h (planner_commands h p) ps"
| "build_loop dyn n h [] ps = Inr ([], ps)"
| "build_loop dyn n h (c # cs) ps =
     (case (if snd c = CT_SUBPLAN then
              (case first_subplan (args (fst c)) of
                 None \<Rightarrow> Inl StopIteration
               | Some q \<Rightarrow>
                   (case buildCommands dyn n h q ps of
                      Inl e \<Rightarrow> Inl e
                    | Inr (subcommands, ps1) \<Rightarrow>
                        (case encode_bytes32_array subcommands of
                           Inl e \<Rightarrow> Inl e
                         | Inr blob \<Rightarrow>
                             Inr (ps1\<lparr>state := state ps1 @ [blob],
                                      freeSlots := freeSlots ps1 @ [int (length (state ps1 @ [blob])) - 1]\<rparr>))))
            else Inr ps) of
        Inl e \<Rightarrow> Inl e
      | Inr ps2 \<Rightarrow>
          (case encode_command dyn c ps2 of
             Inl e \<Rightarrow> Inl e
           | Inr (ws, ps3) \<Rightarrow>
               (case build_loop dyn n h cs ps3 of
                  Inl e \<Rightarrow> Inl e
                | Inr (rest, ps4) \<Rightarrow> Inr (ws @ rest, ps4))))"

section \<open>\<^verbatim>\<open>plan\<close>\<close>

text \<open>
  The loop of \<^verbatim>\<open>plan\<close> over \<^verbatim>\<open>literalVisibility.items()\<close>: every literal gets the next
  state slot, and the slot expires at the literal's last command.
\<close>

fun prepopulate ::
  "(bytes \<times> cmdkey) list \<Rightarrow> bytes list \<times> (bytes \<rightharpoonup> int) \<times> (cmdkey \<Rightarrow> int list) \<Rightarrow>
   bytes list \<times> (bytes \<rightharpoonup> int) \<times> (cmdkey \<Rightarrow> int list)" where
  "prepopulate [] acc = acc"
| "prepopulate ((literal, lastCommand) # r) (st, lsm, ex) =
     prepopulate r (st @ [literal], lsm(literal \<mapsto> int (length st)),
                    ex(lastCommand := ex lastCommand @ [int (length st)]))"

definition initial_state :: "PreplanState \<Rightarrow> PlannerState" where
  "initial_state pst =
     (case prepopulate (lvis pst) ([], Map.empty, (\<lambda>_. [])) of
        (st, lsm, ex) \<Rightarrow>
          \<lparr>returnSlotMap = Map.empty, literalSlotMap = lsm, freeSlots = [],
           stateExpirations = ex, commandVisibility = cvis pst, state = st\<rparr>)"

text \<open>
  \<^verbatim>\<open>plan\<close> calls \<^verbatim>\<open>_preplan\<close> without its last two arguments, so the walk uses the two
  default sets of the function definition, \<^verbatim>\<open>seen\<close> and \<^verbatim>\<open>planners\<close>. Python creates
  them once, and what a call adds stays: the model passes their contents in and, for a
  call that returns, gives their contents back beside the result. (What a failed call
  leaves in them is not modelled.) Both passes start at the same depth of the call
  stack, and the model gives them the same number \<open>n\<close> of nested calls.
\<close>

type_synonym defaults = "cmdkey set \<times> nat set"

definition plan ::
  "(string \<Rightarrow> bool) \<Rightarrow> nat \<Rightarrow> heap \<Rightarrow> defaults \<Rightarrow> nat \<Rightarrow>
   error + ((bytes list \<times> bytes list) \<times> defaults)" where
  "plan dyn n h d p =
     (case preplan n h p \<lparr>cvis = Map.empty, lvis = [], seen = fst d, planners = snd d\<rparr> of
        Inl e \<Rightarrow> Inl e
      | Inr pst \<Rightarrow>
          (case buildCommands dyn n h p (initial_state pst) of
             Inl e \<Rightarrow> Inl e
           | Inr (encodedCommands, ps) \<Rightarrow>
               Inr ((encodedCommands, state ps), (seen pst, planners pst))))"

text \<open>The two default sets of a fresh interpreter.\<close>

definition fresh :: defaults where
  "fresh = ({}, {})"

section \<open>Building a planner: \<^verbatim>\<open>add\<close>, \<^verbatim>\<open>addSubplan\<close>, \<^verbatim>\<open>replaceState\<close>\<close>

text \<open>
  Each operation takes the planner's command list and returns the outcome (the
  exception, or the returned value) together with the command list afterwards.
\<close>

definition has_subplan_arg :: "arg list \<Rightarrow> bool" where
  "has_subplan_arg as = (\<exists>a \<in> set as. case a of SubplanValue q \<Rightarrow> True | _ \<Rightarrow> False)"

definition add :: "FunctionCall \<Rightarrow> command list \<Rightarrow> (error + arg option) \<times> command list" where
  "add call cmds =
     (let command = (call, CT_CALL); cmds' = cmds @ [command] in
      if has_subplan_arg (args call) then (Inl OnlySubplansTakeSubplanValue, cmds')
      else if flags call AND TUPLE_RETURN \<noteq> 0 then (Inr (Some (ReturnValue ''bytes'' (key command))), cmds')
      else if length (fragment_outputs call) \<noteq> 1 then (Inr None, cmds')
      else (Inr (Some (ReturnValue (hd (fragment_outputs call)) (key command))), cmds'))"

text \<open>
  The first loop of \<^verbatim>\<open>addSubplan\<close>, over the arguments, carrying \<^verbatim>\<open>hasSubplan\<close> and
  \<^verbatim>\<open>hasState\<close>.
\<close>

fun scan_subplan_args :: "arg list \<Rightarrow> bool \<Rightarrow> bool \<Rightarrow> error + (bool \<times> bool)" where
  "scan_subplan_args [] hasSubplan hasState = Inr (hasSubplan, hasState)"
| "scan_subplan_args (SubplanValue q # as) hasSubplan hasState =
     (if hasSubplan then Inl SubplanOnePlannerArgument else scan_subplan_args as True hasState)"
| "scan_subplan_args (StateValue # as) hasSubplan hasState =
     (if hasState then Inl SubplanOneStateArgument else scan_subplan_args as hasSubplan True)"
| "scan_subplan_args (a # as) hasSubplan hasState = scan_subplan_args as hasSubplan hasState"

definition addSubplan :: "FunctionCall \<Rightarrow> command list \<Rightarrow> (error + unit) \<times> command list" where
  "addSubplan call cmds =
     (case scan_subplan_args (args call) False False of
        Inl e \<Rightarrow> (Inl e, cmds)
      | Inr (hasSubplan, hasState) \<Rightarrow>
          if \<not> hasSubplan \<or> \<not> hasState then (Inl SubplanNeedsPlannerAndState, cmds)
          else if fragment_outputs call \<noteq> [] \<and> length (fragment_outputs call) = 1
                  \<and> hd (fragment_outputs call) \<noteq> ''bytes[]''
          then (Inl SubplanBadReturn, cmds)
          else (Inr (), cmds @ [(call, CT_SUBPLAN)]))"

definition replaceState :: "FunctionCall \<Rightarrow> command list \<Rightarrow> (error + unit) \<times> command list" where
  "replaceState call cmds =
     (if fragment_outputs call \<noteq> [] \<and> length (fragment_outputs call) \<noteq> 1
      then (Inl ReplaceStateBadReturn, cmds)
      else if fragment_outputs call = [] then (Inl IndexError, cmds)
      else if hd (fragment_outputs call) \<noteq> ''bytes[]'' then (Inl ReplaceStateBadReturn, cmds)
      else (Inr (), cmds @ [(call, CT_RAWCALL)]))"

section \<open>Properties of the visibility pass\<close>

text \<open>
  A relation between walk states that is reflexive, transitive and holds across each of
  the four updates of the walk holds between the state a successful walk starts in and
  the state it ends in.
\<close>

lemma preplan_rel:
  assumes rf: "\<And>st. R st st"
      and tr: "\<And>a b c. R a b \<Longrightarrow> R b c \<Longrightarrow> R a c"
      and up: "\<And>st q. R st (st\<lparr>planners := insert q (planners st)\<rparr>)"
      and us: "\<And>st S. R st (st\<lparr>seen := S\<rparr>)"
      and uc: "\<And>st k v. R st (st\<lparr>cvis := (cvis st)(k \<mapsto> v)\<rparr>)"
      and ul: "\<And>st v k. R st (st\<lparr>lvis := dict_set (lvis st) v k\<rparr>)"
  shows "(preplan n h p st = Inr st' \<longrightarrow> R st st')"
    and "(preplan_commands n h cs st = Inr st' \<longrightarrow> R st st')"
    and "(preplan_args n h c as st = Inr st' \<longrightarrow> R st st')"
proof (induction n h p st and n h cs st and n h c as st arbitrary: st' and st' and st'
       rule: preplan_preplan_commands_preplan_args.induct)
  case (1 h p st)
  then show ?case by simp
next
  case (2 n h p st)
  show ?case
  proof
    assume a: "preplan (Suc n) h p st = Inr st'"
    then have "preplan_commands n h (planner_commands h p) (st\<lparr>planners := insert p (planners st)\<rparr>) = Inr st'"
      and np: "p \<notin> planners st"
      by (auto split: if_splits)
    with 2 have "R (st\<lparr>planners := insert p (planners st)\<rparr>) st'" by simp
    then show "R st st'" using up tr by blast
  qed
next
  case (3 n h st)
  then show ?case using rf by simp
next
  case (4 n h c cs st)
  show ?case
  proof
    assume a: "preplan_commands n h (c # cs) st = Inr st'"
    then obtain ias st1 where i: "inargs c = Inr ias" and p1: "preplan_args n h c ias st = Inr st1"
      and p2: "preplan_commands n h cs (st1\<lparr>seen := insert (key c) (seen st1)\<rparr>) = Inr st'"
      by (auto split: sum.splits)
    from 4(1)[OF i] p1 have "R st st1" by simp
    moreover have "R st1 (st1\<lparr>seen := insert (key c) (seen st1)\<rparr>)" by (rule us)
    moreover from 4(2)[OF i p1] p2 have "R (st1\<lparr>seen := insert (key c) (seen st1)\<rparr>) st'" by simp
    ultimately show "R st st'" using tr by blast
  qed
next
  case (5 n h c st)
  then show ?case using rf by simp
next
  case (6 n h c a as st)
  show ?case
  proof (cases a)
    case (LiteralValue p v)
    show ?thesis
    proof
      assume "preplan_args n h c (a # as) st = Inr st'"
      with LiteralValue 6(1) have "R (st\<lparr>lvis := dict_set (lvis st) v (key c)\<rparr>) st'" by simp
      then show "R st st'" using ul tr by blast
    qed
  next
    case (ReturnValue p k)
    show ?thesis
    proof
      assume "preplan_args n h c (a # as) st = Inr st'"
      with ReturnValue 6(2) have "R (st\<lparr>cvis := (cvis st)(k \<mapsto> key c)\<rparr>) st'"
        by (simp split: if_splits)
      then show "R st st'" using uc tr by blast
    qed
  next
    case StateValue
    with 6(3) show ?thesis by simp
  next
    case (SubplanValue q)
    show ?thesis
    proof
      assume a: "preplan_args n h c (a # as) st = Inr st'"
      with SubplanValue obtain st1 where p1: "preplan n h q st = Inr st1"
        and p2: "preplan_args n h c as (if fragment_outputs (fst c) = [] then st1\<lparr>seen := seen st\<rparr> else st1) = Inr st'"
        by (auto split: sum.splits)
      from 6(4)[OF SubplanValue] p1 have "R st st1" by simp
      moreover have "R st1 (if fragment_outputs (fst c) = [] then st1\<lparr>seen := seen st\<rparr> else st1)"
        using us rf by simp
      moreover from 6(5)[OF SubplanValue p1] p2
      have "R (if fragment_outputs (fst c) = [] then st1\<lparr>seen := seen st\<rparr> else st1) st'"
        by simp
      ultimately show "R st st'" using tr by blast
    qed
  next
    case (Value p)
    then show ?thesis by simp
  qed
qed

lemma preplan_planners_mono:
  "preplan n h p st = Inr st' \<Longrightarrow> planners st \<subseteq> planners st'"
  "preplan_commands n h cs st = Inr st' \<Longrightarrow> planners st \<subseteq> planners st'"
  "preplan_args n h c as st = Inr st' \<Longrightarrow> planners st \<subseteq> planners st'"
  by (rule preplan_rel[where R="\<lambda>a b. planners a \<subseteq> planners b", rule_format]; auto)+

lemma preplan_enters: "preplan n h p st = Inr st' \<Longrightarrow> p \<in> planners st'"
  by (cases n) (auto split: if_splits dest: preplan_planners_mono(2))

lemma dict_set_keys: "fst ` set (dict_set kvs k v) = insert k (fst ` set kvs)"
  by (induction kvs k v rule: dict_set.induct) (simp_all add: insert_commute)


section \<open>Bytes of small integers\<close>

lemma HexBytes_byte:
  assumes "0 \<le> i" "i < 256"
  shows "HexBytes_int i = Inr [word_of_int i]"
proof -
  from assms have "nat i < 256" by linarith
  with assms show ?thesis
    by (simp add: HexBytes_int_def int_to_big_endian.simps[of "nat i"])
qed

lemma hexConcat_replicate_FF: "hexConcat (replicate k (Integer 0xFF)) = Inr (replicate k 0xFF)"
  by (induction k) (simp_all add: HexBytes_byte)

section \<open>An example program: \<^verbatim>\<open>math.add(1, 2)\<close>, then \<^verbatim>\<open>math.add(sum, 3)\<close>\<close>

text \<open>
  The ABI encoding of an unsigned integer as a 32-byte big-endian word, and the
  classification of the type strings the examples use (both belong to the ABI library).
\<close>

definition uint256 :: "nat \<Rightarrow> bytes" where
  "uint256 n = replicate (32 - length (int_to_big_endian n)) 0 @ int_to_big_endian n"

definition dynamic_type :: "string \<Rightarrow> bool" where
  "dynamic_type t = (t = ''bytes'' \<or> t = ''string'' \<or> t = ''bytes[]'')"

text \<open>
  A call of \<^verbatim>\<open>add(uint256,uint256)\<close> on a library contract at address \<open>addr\<close>
  (\<^verbatim>\<open>createLibrary\<close>: the flags are \<^verbatim>\<open>DELEGATECALL\<close>); \<open>i\<close> is the identity of the
  \<^verbatim>\<open>FunctionCall\<close> object.
\<close>

definition math_add :: "nat \<Rightarrow> bytes \<Rightarrow> arg list \<Rightarrow> FunctionCall" where
  "math_add i addr as =
     \<lparr>ident = i, contract_address = addr, flags = DELEGATECALL,
      fragment_signature = [0x77, 0x16, 0x02, 0xF7], fragment_outputs = [''uint256''],
      args = as, callvalue = None\<rparr>"

definition sum_program :: "bytes \<Rightarrow> heap" where
  "sum_program addr =
     [[(math_add 0 addr [LiteralValue ''uint256'' (uint256 1), LiteralValue ''uint256'' (uint256 2)], CT_CALL),
       (math_add 1 addr [ReturnValue ''uint256'' (0, CT_CALL), LiteralValue ''uint256'' (uint256 3)], CT_CALL)]]"

definition example_address :: bytes where
  "example_address = replicate 20 0x11"

lemma uint256_small [simp]: "n < 256 \<Longrightarrow> uint256 n = replicate 31 0 @ [of_nat n]"
  by (simp add: uint256_def int_to_big_endian.simps[of n])

lemmas eval_defs =
  plan_def fresh_def planner_commands_def inargs_def key_def initial_state_def
  encode_command_def buildCommandArgs_def arg_slot_def return_slot_def encode_words_def
  padArray_def HexBytes_byte hexConcat_replicate_FF Let_def
  DELEGATECALL_def CALL_def STATICCALL_def CALLTYPE_MASK_def CALL_WITH_VALUE_def
  EXTENDED_COMMAND_def TUPLE_RETURN_def insert_commute

lemma sum_program_result:
  assumes "\<not> dyn ''uint256''"
  shows "plan dyn (Suc 0) (sum_program addr) fresh 0 =
     Inr (([[0x77, 0x16, 0x02, 0xF7] @ [0] @ [0, 1] @ replicate 4 0xFF @ [1] @ addr,
            [0x77, 0x16, 0x02, 0xF7] @ [0] @ [1, 2] @ replicate 4 0xFF @ [0xFF] @ addr],
           [uint256 1, uint256 2, uint256 3]),
          ({(0, CT_CALL), (1, CT_CALL)}, {0}))"
  using assms by (simp add: eval_defs sum_program_def math_add_def)

section \<open>Planning twice\<close>

text \<open>
  Claim C1 (determinism) says that a second \<^verbatim>\<open>plan()\<close> on the unmodified planner
  succeeds with the same result. In the code the set \<^verbatim>\<open>planners\<close> is a default
  argument of \<^verbatim>\<open>_preplan\<close>, so it still holds the planner after the first call: whenever
  a call of \<^verbatim>\<open>plan()\<close> returns, the next call on the same planner fails with
  ``A planner cannot contain itself''.
\<close>

theorem plan_twice_fails:
  assumes "plan dyn n h d p = Inr (r, d')"
  shows "plan dyn n h d' p = Inl PlannerContainsItself"
proof -
  from assms obtain pst where
    pp: "preplan n h p \<lparr>cvis = Map.empty, lvis = [], seen = fst d, planners = snd d\<rparr> = Inr pst"
    and d': "d' = (seen pst, planners pst)"
    by (auto simp: plan_def split: sum.splits)
  from pp have "p \<in> planners pst" by (rule preplan_enters)
  moreover from pp obtain m where "n = Suc m" by (cases n) auto
  ultimately show ?thesis by (simp add: plan_def d')
qed

theorem plan_twice_fails_witness:
  "plan dynamic_type (Suc 0) (sum_program example_address) fresh 0 =
     Inr (([[0x77, 0x16, 0x02, 0xF7] @ [0] @ [0, 1] @ replicate 4 0xFF @ [1] @ example_address,
            [0x77, 0x16, 0x02, 0xF7] @ [0] @ [1, 2] @ replicate 4 0xFF @ [0xFF] @ example_address],
           [uint256 1, uint256 2, uint256 3]),
          ({(0, CT_CALL), (1, CT_CALL)}, {0}))
   \<and> plan dynamic_type (Suc 0) (sum_program example_address) ({(0, CT_CALL), (1, CT_CALL)}, {0}) 0 =
     Inl PlannerContainsItself"
proof -
  have nd: "\<not> dynamic_type ''uint256''" by (simp add: dynamic_type_def)
  from nd have r: "plan dynamic_type (Suc 0) (sum_program example_address) fresh 0 =
     Inr (([[0x77, 0x16, 0x02, 0xF7] @ [0] @ [0, 1] @ replicate 4 0xFF @ [1] @ example_address,
            [0x77, 0x16, 0x02, 0xF7] @ [0] @ [1, 2] @ replicate 4 0xFF @ [0xFF] @ example_address],
           [uint256 1, uint256 2, uint256 3]),
          ({(0, CT_CALL), (1, CT_CALL)}, {0}))"
    by (rule sum_program_result)
  from r plan_twice_fails[OF r] show ?thesis by simp
qed

section \<open>The example program planned\<close>

text \<open>
  Claim C7: for the program that adds \<^verbatim>\<open>math.add(1, 2)\<close> and then
  \<^verbatim>\<open>math.add(sum, 3)\<close>, \<^verbatim>\<open>plan()\<close> (from a fresh interpreter) returns two commands and
  a state of three entries, the three literals; byte 5 of the second instruction, its
  first argument slot, equals byte 11 of the first instruction, the return slot of
  the first command (slot 1, the released slot of the literal 2).
\<close>

theorem sum_program_plan:
  assumes "\<not> dyn ''uint256''"
  shows "\<exists>cmds st dflt.
     plan dyn (Suc 0) (sum_program addr) fresh 0 = Inr ((cmds, st), dflt)
     \<and> length cmds = 2 \<and> length st = 3
     \<and> st = [uint256 1, uint256 2, uint256 3]
     \<and> cmds ! 1 ! 5 = cmds ! 0 ! 11 \<and> cmds ! 0 ! 11 = 1
     \<and> cmds ! 0 = [0x77, 0x16, 0x02, 0xF7] @ [0] @ [0, 1] @ replicate 4 0xFF @ [1] @ addr
     \<and> cmds ! 1 = [0x77, 0x16, 0x02, 0xF7] @ [0] @ [1, 2] @ replicate 4 0xFF @ [0xFF] @ addr"
  using sum_program_result[of dyn addr] assms by (simp add: eval_nat_numeral)

theorem sum_program_plan_witness:
  "\<exists>cmds st dflt.
     plan dynamic_type (Suc 0) (sum_program example_address) fresh 0 = Inr ((cmds, st), dflt)
     \<and> length cmds = 2 \<and> length st = 3
     \<and> st = [uint256 1, uint256 2, uint256 3]
     \<and> cmds ! 1 ! 5 = cmds ! 0 ! 11 \<and> cmds ! 0 ! 11 = 1
     \<and> cmds ! 0 = [0x77, 0x16, 0x02, 0xF7] @ [0] @ [0, 1] @ replicate 4 0xFF @ [1] @ example_address
     \<and> cmds ! 1 = [0x77, 0x16, 0x02, 0xF7] @ [0] @ [1, 2] @ replicate 4 0xFF @ [0xFF] @ example_address"
proof -
  have nd: "\<not> dynamic_type ''uint256''" by (simp add: dynamic_type_def)
  from nd show ?thesis by (rule sum_program_plan)
qed

section \<open>\<^verbatim>\<open>add\<close> and \<^verbatim>\<open>addSubplan\<close>\<close>

text \<open>
  Claim C10: for every call with an argument of the Subplan variant, \<^verbatim>\<open>add\<close> raises
  ``Only subplans can have arguments of type SubplanValue'', and the planner's command
  list has already grown by the rejected command.
\<close>

theorem add_appends_before_raising:
  assumes "has_subplan_arg (args call)"
  shows "add call cmds = (Inl OnlySubplansTakeSubplanValue, cmds @ [(call, CT_CALL)])"
  using assms by (simp add: add_def Let_def)

theorem add_appends_before_raising_witness:
  "add (math_add 7 example_address [SubplanValue 1, StateValue]) [] =
     (Inl OnlySubplansTakeSubplanValue, [(math_add 7 example_address [SubplanValue 1, StateValue], CT_CALL)])"
proof -
  have "has_subplan_arg (args (math_add 7 example_address [SubplanValue 1, StateValue]))"
    by (simp add: has_subplan_arg_def math_add_def)
  from add_appends_before_raising[OF this, of "[]"] show ?thesis by simp
qed

text \<open>
  What \<^verbatim>\<open>addSubplan\<close>'s scan of the arguments accepts: exactly one Subplan argument and
  exactly one State argument.
\<close>

definition is_subplan :: "arg \<Rightarrow> bool" where
  "is_subplan a = (case a of SubplanValue q \<Rightarrow> True | _ \<Rightarrow> False)"

definition is_state :: "arg \<Rightarrow> bool" where
  "is_state a = (case a of StateValue \<Rightarrow> True | _ \<Rightarrow> False)"

lemma scan_subplan_args_counts:
  "scan_subplan_args as hs ht = Inr (True, True) \<longleftrightarrow>
     length (filter is_subplan as) + (if hs then 1 else 0) = 1
     \<and> length (filter is_state as) + (if ht then 1 else 0) = 1"
  by (induction as hs ht rule: scan_subplan_args.induct)
     (auto simp: is_subplan_def is_state_def)

lemma scan_subplan_args_results:
  "scan_subplan_args as hs ht = Inr (a, b) \<Longrightarrow>
     (a \<longleftrightarrow> hs \<or> (\<exists>x \<in> set as. is_subplan x)) \<and> (b \<longleftrightarrow> ht \<or> (\<exists>x \<in> set as. is_state x))"
  by (induction as hs ht rule: scan_subplan_args.induct)
     (auto simp: is_subplan_def is_state_def split: if_splits)

lemma addSubplan_rejects_before_appending:
  "fst (addSubplan call cmds) \<noteq> Inr () \<Longrightarrow> snd (addSubplan call cmds) = cmds"
  by (auto simp: addSubplan_def split: sum.splits prod.splits if_splits)

lemma addSubplan_rejects_wrong_arguments:
  assumes "length (filter is_subplan (args call)) \<noteq> 1 \<or> length (filter is_state (args call)) \<noteq> 1"
  shows "\<exists>e. addSubplan call cmds = (Inl e, cmds)"
proof (cases "scan_subplan_args (args call) False False")
  case (Inl e)
  then show ?thesis by (simp add: addSubplan_def)
next
  case (Inr r)
  obtain a b where r: "r = (a, b)" by (cases r)
  from assms scan_subplan_args_counts[of "args call" False False] Inr r
  have "\<not> (a \<and> b)" by auto
  with Inr r show ?thesis by (auto simp: addSubplan_def)
qed

lemma addSubplan_rejects_single_other_output:
  assumes "fragment_outputs call = [t]" "t \<noteq> ''bytes[]''"
  shows "\<exists>e. addSubplan call cmds = (Inl e, cmds)"
  using assms by (auto simp: addSubplan_def split: sum.splits prod.splits)

text \<open>
  Claim C6 says that \<^verbatim>\<open>addSubplan\<close> rejects every call whose arguments do not hold
  exactly one Subplan and one State argument, and every call whose declared outputs
  are neither empty nor exactly \<^verbatim>\<open>["bytes[]"]\<close>, multiple outputs included. The
  argument part and the single-output part hold (the three lemmas above). The output
  check of the code only looks at an output list of length one: a call with one
  Subplan and one State argument and two or more declared outputs is accepted and
  appended, although the error text asks for ``a bytes[] replacement state or
  nothing'' and \<^verbatim>\<open>replaceState\<close> refuses such a call.
\<close>

theorem addSubplan_accepts_multiple_outputs:
  assumes "scan_subplan_args (args call) False False = Inr (True, True)"
      and "2 \<le> length (fragment_outputs call)"
  shows "addSubplan call cmds = (Inr (), cmds @ [(call, CT_SUBPLAN)])"
  using assms by (auto simp: addSubplan_def)

definition two_outputs_call :: FunctionCall where
  "two_outputs_call =
     \<lparr>ident = 0, contract_address = example_address, flags = CALL,
      fragment_signature = [0xDE, 0x79, 0x2D, 0x5F],
      fragment_outputs = [''uint256'', ''uint256''],
      args = [SubplanValue 1, StateValue], callvalue = None\<rparr>"

theorem addSubplan_accepts_multiple_outputs_witness:
  "addSubplan two_outputs_call [] = (Inr (), [(two_outputs_call, CT_SUBPLAN)])
   \<and> replaceState two_outputs_call [] = (Inl ReplaceStateBadReturn, [])"
proof -
  have a: "scan_subplan_args (args two_outputs_call) False False = Inr (True, True)"
    by (simp add: two_outputs_call_def)
  have b: "2 \<le> length (fragment_outputs two_outputs_call)"
    by (simp add: two_outputs_call_def)
  have c: "replaceState two_outputs_call [] = (Inl ReplaceStateBadReturn, [])"
    by (simp add: replaceState_def two_outputs_call_def)
  from addSubplan_accepts_multiple_outputs[OF a b, of "[]"] c show ?thesis by simp
qed

section \<open>Planners that contain themselves\<close>



definition preplan_errors :: "error set" where
  "preplan_errors = {PlannerContainsItself, ReturnNotVisible, CallValueMissing, UnknownArgumentType}"

lemma inargs_subplans: "inargs c = Inr ias \<Longrightarrow> SubplanValue q \<in> set ias \<longleftrightarrow> SubplanValue q \<in> set (args (fst c))"
  by (auto simp: inargs_def split: if_splits option.splits)

text \<open>The errors the visibility pass can end in.\<close>

lemma preplan_error_kinds:
  "(preplan n h p st = Inl e \<longrightarrow> e = RecursionError \<or> e \<in> preplan_errors)"
  "(preplan_commands n h cs st = Inl e \<longrightarrow> e = RecursionError \<or> e \<in> preplan_errors)"
  "(preplan_args n h c as st = Inl e \<longrightarrow> e = RecursionError \<or> e \<in> preplan_errors)"
proof (induction n h p st and n h cs st and n h c as st
       rule: preplan_preplan_commands_preplan_args.induct)
  case (1 h p st)
  then show ?case by simp
next
  case (2 n h p st)
  then show ?case by (simp add: preplan_errors_def)
next
  case (3 n h st)
  then show ?case by simp
next
  case (4 n h c cs st)
  show ?case
  proof (cases "inargs c")
    case (Inl e')
    then have "e' = CallValueMissing" by (auto simp: inargs_def split: if_splits option.splits)
    with Inl show ?thesis by (simp add: preplan_errors_def)
  next
    case (Inr ias)
    note i = this
    show ?thesis
    proof (cases "preplan_args n h c ias st")
      case (Inl e')
      with 4(1)[OF i] i show ?thesis by simp
    next
      case (Inr st1)
      with 4(2)[OF i Inr] i show ?thesis by simp
    qed
  qed
next
  case (5 n h c st)
  then show ?case by simp
next
  case (6 n h c a as st)
  show ?case
  proof (cases a)
    case (LiteralValue p v)
    with 6(1) show ?thesis by simp
  next
    case (ReturnValue p k)
    with 6(2) show ?thesis by (simp add: preplan_errors_def)
  next
    case StateValue
    with 6(3) show ?thesis by simp
  next
    case (SubplanValue q)
    show ?thesis
    proof (cases "preplan n h q st")
      case (Inl e')
      with 6(4)[OF SubplanValue] SubplanValue show ?thesis by simp
    next
      case (Inr st1)
      with 6(5)[OF SubplanValue Inr] SubplanValue show ?thesis by simp
    qed
  next
    case (Value p)
    then show ?thesis by (simp add: preplan_errors_def)
  qed
qed

text \<open>
  The planners of the heap the walk has not entered yet: every nested call enters one
  of them, so room for more nested calls than there are planners is never used up.
\<close>

definition unvisited :: "heap \<Rightarrow> PreplanState \<Rightarrow> nat" where
  "unvisited h st = card ({0..<length h} - planners st)"

lemma unvisited_mono: "planners st \<subseteq> planners st' \<Longrightarrow> unvisited h st' \<le> unvisited h st"
  unfolding unvisited_def by (rule card_mono) auto

lemma unvisited_enter:
  assumes "p < length h" "p \<notin> planners st"
  shows "unvisited h (st\<lparr>planners := insert p (planners st)\<rparr>) < unvisited h st"
proof -
  have e: "{0..<length h} - insert p (planners st) = ({0..<length h} - planners st) - {p}"
    by blast
  have "p \<in> {0..<length h} - planners st" using assms by simp
  then have "card (({0..<length h} - planners st) - {p}) < card ({0..<length h} - planners st)"
    by (intro card_Diff1_less) simp_all
  then show ?thesis by (simp add: unvisited_def e)
qed

lemma unvisited_seen [simp]: "unvisited h (st\<lparr>seen := S\<rparr>) = unvisited h st"
  and unvisited_cvis [simp]: "unvisited h (st\<lparr>cvis := C\<rparr>) = unvisited h st"
  and unvisited_lvis [simp]: "unvisited h (st\<lparr>lvis := L\<rparr>) = unvisited h st"
  by (simp_all add: unvisited_def)

lemma preplan_enough_fuel:
  "(unvisited h st < n \<longrightarrow> preplan n h p st \<noteq> Inl RecursionError)"
  "(unvisited h st < n \<longrightarrow> preplan_commands n h cs st \<noteq> Inl RecursionError)"
  "(unvisited h st < n \<longrightarrow> preplan_args n h c as st \<noteq> Inl RecursionError)"
proof (induction n h p st and n h cs st and n h c as st
       rule: preplan_preplan_commands_preplan_args.induct)
  case (1 h p st)
  then show ?case by simp
next
  case (2 n h p st)
  show ?case
  proof
    assume u: "unvisited h st < Suc n"
    show "preplan (Suc n) h p st \<noteq> Inl RecursionError"
    proof (cases "p \<in> planners st")
      case True
      then show ?thesis by simp
    next
      case False
      show ?thesis
      proof (cases "p < length h")
        case True
        from unvisited_enter[OF True False] u
        have "unvisited h (st\<lparr>planners := insert p (planners st)\<rparr>) < n" by simp
        with 2 False show ?thesis by simp
      next
        case nl: False
        then have "planner_commands h p = []" by (simp add: planner_commands_def)
        with False show ?thesis by simp
      qed
    qed
  qed
next
  case (3 n h st)
  then show ?case by simp
next
  case (4 n h c cs st)
  show ?case
  proof
    assume u: "unvisited h st < n"
    show "preplan_commands n h (c # cs) st \<noteq> Inl RecursionError"
    proof (cases "inargs c")
      case (Inl e')
      then have "e' = CallValueMissing" by (auto simp: inargs_def split: if_splits option.splits)
      with Inl show ?thesis by simp
    next
      case (Inr ias)
      note i = this
      show ?thesis
      proof (cases "preplan_args n h c ias st")
        case (Inl e')
        with 4(1)[OF i] u i show ?thesis by auto
      next
        case (Inr st1)
        from preplan_planners_mono(3)[OF Inr] have "unvisited h st1 \<le> unvisited h st"
          by (rule unvisited_mono)
        with u have "unvisited h (st1\<lparr>seen := insert (key c) (seen st1)\<rparr>) < n" by simp
        with 4(2)[OF i Inr] i Inr show ?thesis by simp
      qed
    qed
  qed
next
  case (5 n h c st)
  then show ?case by simp
next
  case (6 n h c a as st)
  show ?case
  proof (cases a)
    case (LiteralValue p v)
    with 6(1) show ?thesis by simp
  next
    case (ReturnValue p k)
    with 6(2) show ?thesis by simp
  next
    case StateValue
    with 6(3) show ?thesis by simp
  next
    case (SubplanValue q)
    show ?thesis
    proof
      assume u: "unvisited h st < n"
      show "preplan_args n h c (a # as) st \<noteq> Inl RecursionError"
      proof (cases "preplan n h q st")
        case (Inl e')
        with 6(4)[OF SubplanValue] u SubplanValue show ?thesis by auto
      next
        case (Inr st1)
        from preplan_planners_mono(1)[OF Inr] have "unvisited h st1 \<le> unvisited h st"
          by (rule unvisited_mono)
        with u have "unvisited h (if fragment_outputs (fst c) = [] then st1\<lparr>seen := seen st\<rparr> else st1) < n"
          by simp
        with 6(5)[OF SubplanValue Inr] SubplanValue Inr show ?thesis by simp
      qed
    qed
  next
    case (Value p)
    then show ?thesis by simp
  qed
qed




lemma unvisited_le: "unvisited h st \<le> length h"
proof -
  have "card ({0..<length h} - planners st) \<le> card {0..<length h}"
    by (rule card_mono) auto
  then show ?thesis by (simp add: unvisited_def)
qed

text \<open>
  Two planners that contain themselves: the planner of the repository's test
  \<^verbatim>\<open>test_forbid_infinite_loops\<close>, and one whose first command uses a return value
  that no command produced.
\<close>

definition execute_subplan :: "nat \<Rightarrow> arg list \<Rightarrow> FunctionCall" where
  "execute_subplan i as =
     \<lparr>ident = i, contract_address = example_address, flags = DELEGATECALL,
      fragment_signature = [0xDE, 0x79, 0x2D, 0x5F], fragment_outputs = [''bytes[]''],
      args = as, callvalue = None\<rparr>"




section \<open>The two instruction layouts\<close>

lemma hexConcat_HexString [simp]:
  "hexConcat (HexString b # xs) = (case hexConcat xs of Inl e \<Rightarrow> Inl e | Inr r \<Rightarrow> Inr (b @ r))"
  by simp

lemma hexConcat_bytes:
  assumes "\<forall>i \<in> set xs. 0 \<le> i \<and> i < 256"
  shows "hexConcat (map Integer xs) = Inr (map word_of_int xs)"
  using assms by (induction xs) (simp_all add: HexBytes_byte)

lemma padArray_bytes:
  assumes "\<forall>i \<in> set xs. 0 \<le> i \<and> i < 256"
  shows "\<forall>i \<in> set (padArray xs k 0xFF). 0 \<le> i \<and> i < (256::int)"
  using assms by (auto simp: padArray_def)

lemma or_extended_byte:
  assumes "0 \<le> f" "f < 256"
  shows "0 \<le> f OR EXTENDED_COMMAND" "f OR EXTENDED_COMMAND < 256"
    "(f OR EXTENDED_COMMAND) AND EXTENDED_COMMAND = EXTENDED_COMMAND"
proof -
  show "0 \<le> f OR EXTENDED_COMMAND" using assms by (simp add: EXTENDED_COMMAND_def)
  have "f OR EXTENDED_COMMAND < 2 ^ 8"
    using assms by (intro OR_upper) (simp_all add: EXTENDED_COMMAND_def)
  then show "f OR EXTENDED_COMMAND < 256" by simp
  show "(f OR EXTENDED_COMMAND) AND EXTENDED_COMMAND = EXTENDED_COMMAND"
    by (rule bit_eqI) (auto simp: bit_and_iff bit_or_iff)
qed

lemma encode_words_standard:
  assumes "fl AND EXTENDED_COMMAND \<noteq> EXTENDED_COMMAND"
      and "0 \<le> fl" "fl < 256" "0 \<le> ret" "ret < 256"
      and "\<forall>s \<in> set slots. 0 \<le> s \<and> s < 256"
  shows "encode_words c fl slots ret =
     Inr [fragment_signature (fst c) @ [word_of_int fl] @ map word_of_int (padArray slots 6 0xFF)
          @ [word_of_int ret] @ contract_address (fst c)]"
  using assms hexConcat_bytes[OF padArray_bytes[OF assms(6), of 6]]
  by (simp add: encode_words_def HexBytes_byte)

lemma encode_words_extended:
  assumes "fl AND EXTENDED_COMMAND = EXTENDED_COMMAND"
      and "0 \<le> fl" "fl < 256" "0 \<le> ret" "ret < 256"
      and "\<forall>s \<in> set slots. 0 \<le> s \<and> s < 256"
  shows "encode_words c fl slots ret =
     Inr [fragment_signature (fst c) @ [word_of_int fl] @ replicate 6 0xFF
          @ [word_of_int ret] @ contract_address (fst c),
          map word_of_int (padArray slots 32 0xFF)]"
  using assms hexConcat_bytes[OF padArray_bytes[OF assms(6), of 32]]
  by (simp add: encode_words_def HexBytes_byte hexConcat_replicate_FF)


text \<open>
  Claim C8 says that a command with at most 6 resolved arguments is encoded as one
  standard 32-byte word, its argument slots padded to 6 with \<^verbatim>\<open>0xFF\<close>, and a command with
  7 or more as an extended pair with the \<^verbatim>\<open>EXTENDED_COMMAND\<close> flag set. The encoder picks
  the layout by the flag, which the call may already carry, and \<^verbatim>\<open>HexBytes\<close> gives an
  integer as many bytes as it needs. As amended: for a command whose flags, argument
  slots and return slot each fit one byte, with a 4-byte selector and a 20-byte address:
  with at most 6 resolved arguments and call flags that do not carry
  \<^verbatim>\<open>EXTENDED_COMMAND\<close>, the encoder emits one 32-byte word, selector, flags, the slots
  padded to 6 with \<^verbatim>\<open>0xFF\<close>, return slot, address; with 7 or more, it sets the flag and
  emits two words, a 32-byte header with six \<^verbatim>\<open>0xFF\<close> argument bytes and the word of the
  slots padded to 32 with \<^verbatim>\<open>0xFF\<close>.
\<close>

theorem encode_command_threshold:
  assumes slots: "buildCommandArgs dyn c (returnSlotMap ps) (literalSlotMap ps) (state ps) = Inr slots"
      and ret: "return_slot dyn c (ps\<lparr>freeSlots := freeSlots ps @ stateExpirations ps (key c)\<rparr>) = Inr (ret, ps')"
      and fl: "0 \<le> flags (fst c)" "flags (fst c) < 256"
      and rb: "0 \<le> ret" "ret < 256"
      and sb: "\<forall>s \<in> set slots. 0 \<le> s \<and> s < 256"
      and sg: "length (fragment_signature (fst c)) = 4"
      and ad: "length (contract_address (fst c)) = 20"
  shows "(length slots \<le> 6 \<and> flags (fst c) AND EXTENDED_COMMAND \<noteq> EXTENDED_COMMAND \<longrightarrow>
           (\<exists>w. encode_command dyn c ps = Inr ([w], ps') \<and> length w = 32
              \<and> w = fragment_signature (fst c) @ [word_of_int (flags (fst c))]
                    @ map word_of_int slots @ replicate (6 - length slots) 0xFF
                    @ [word_of_int ret] @ contract_address (fst c)))
       \<and> (6 < length slots \<longrightarrow>
           (\<exists>w1 w2. encode_command dyn c ps = Inr ([w1, w2], ps') \<and> length w1 = 32
              \<and> w1 = fragment_signature (fst c) @ [word_of_int (flags (fst c) OR EXTENDED_COMMAND)]
                     @ replicate 6 0xFF @ [word_of_int ret] @ contract_address (fst c)
              \<and> w2 = map word_of_int slots @ replicate (32 - length slots) 0xFF))"
proof (intro conjI impI)
  assume a: "length slots \<le> 6 \<and> flags (fst c) AND EXTENDED_COMMAND \<noteq> EXTENDED_COMMAND"
  from a fl rb sb have
    "encode_words c (flags (fst c)) slots ret =
       Inr [fragment_signature (fst c) @ [word_of_int (flags (fst c))]
            @ map word_of_int (padArray slots 6 0xFF) @ [word_of_int ret] @ contract_address (fst c)]"
    by (intro encode_words_standard) simp_all
  with a slots ret sg ad
  show "\<exists>w. encode_command dyn c ps = Inr ([w], ps') \<and> length w = 32
          \<and> w = fragment_signature (fst c) @ [word_of_int (flags (fst c))]
                @ map word_of_int slots @ replicate (6 - length slots) 0xFF
                @ [word_of_int ret] @ contract_address (fst c)"
    by (simp add: encode_command_def Let_def padArray_def)
next
  assume a: "6 < length slots"
  from or_extended_byte[OF fl] rb sb have
    "encode_words c (flags (fst c) OR EXTENDED_COMMAND) slots ret =
       Inr [fragment_signature (fst c) @ [word_of_int (flags (fst c) OR EXTENDED_COMMAND)]
            @ replicate 6 0xFF @ [word_of_int ret] @ contract_address (fst c),
            map word_of_int (padArray slots 32 0xFF)]"
    by (intro encode_words_extended) simp_all
  with a slots ret sg ad
  show "\<exists>w1 w2. encode_command dyn c ps = Inr ([w1, w2], ps') \<and> length w1 = 32
          \<and> w1 = fragment_signature (fst c) @ [word_of_int (flags (fst c) OR EXTENDED_COMMAND)]
                 @ replicate 6 0xFF @ [word_of_int ret] @ contract_address (fst c)
          \<and> w2 = map word_of_int slots @ replicate (32 - length slots) 0xFF"
    by (simp add: encode_command_def Let_def padArray_def)
qed

text \<open>
  Calls with literal arguments \<^verbatim>\<open>1, 2, ...\<close> and the planner state in which the
  literals 1 to 7 hold the slots 0 to 6.
\<close>

definition state_call :: "int \<Rightarrow> nat list \<Rightarrow> FunctionCall" where
  "state_call f k =
     \<lparr>ident = 0, contract_address = example_address, flags = f,
      fragment_signature = [0x12, 0x34, 0x56, 0x78], fragment_outputs = [],
      args = map (\<lambda>i. LiteralValue ''uint256'' (uint256 i)) k, callvalue = None\<rparr>"

definition seven_literals :: PlannerState where
  "seven_literals =
     \<lparr>returnSlotMap = Map.empty,
      literalSlotMap = [uint256 1 \<mapsto> 0, uint256 2 \<mapsto> 1, uint256 3 \<mapsto> 2, uint256 4 \<mapsto> 3,
                        uint256 5 \<mapsto> 4, uint256 6 \<mapsto> 5, uint256 7 \<mapsto> 6],
      freeSlots = [], stateExpirations = (\<lambda>_. []), commandVisibility = Map.empty,
      state = map uint256 [1, 2, 3, 4, 5, 6, 7]\<rparr>"

lemma six_slots:
  "buildCommandArgs dynamic_type (state_call CALL [1, 2, 3, 4, 5, 6], CT_CALL) (returnSlotMap seven_literals)
     (literalSlotMap seven_literals) (state seven_literals) = Inr [0, 1, 2, 3, 4, 5]"
  by (simp add: buildCommandArgs_def inargs_def state_call_def seven_literals_def arg_slot_def
      dynamic_type_def CALL_def CALLTYPE_MASK_def CALL_WITH_VALUE_def)

lemma seven_slots:
  "buildCommandArgs dynamic_type (state_call CALL [1, 2, 3, 4, 5, 6, 7], CT_CALL) (returnSlotMap seven_literals)
     (literalSlotMap seven_literals) (state seven_literals) = Inr [0, 1, 2, 3, 4, 5, 6]"
  by (simp add: buildCommandArgs_def inargs_def state_call_def seven_literals_def arg_slot_def
      dynamic_type_def CALL_def CALLTYPE_MASK_def CALL_WITH_VALUE_def)

lemma no_return:
  "return_slot dynamic_type (state_call f k, CT_CALL)
     (seven_literals\<lparr>freeSlots := freeSlots seven_literals @ stateExpirations seven_literals (key (state_call f k, CT_CALL))\<rparr>)
   = Inr (0xFF, seven_literals)"
  by (simp add: return_slot_def seven_literals_def)

theorem encode_command_threshold_witness:
  "encode_command dynamic_type (state_call CALL [1, 2, 3, 4, 5, 6], CT_CALL) seven_literals =
     Inr ([[0x12, 0x34, 0x56, 0x78] @ [1] @ [0, 1, 2, 3, 4, 5] @ [0xFF] @ example_address], seven_literals)
   \<and> encode_command dynamic_type (state_call CALL [1, 2, 3, 4, 5, 6, 7], CT_CALL) seven_literals =
     Inr ([[0x12, 0x34, 0x56, 0x78] @ [0x41] @ replicate 6 0xFF @ [0xFF] @ example_address,
           [0, 1, 2, 3, 4, 5, 6] @ replicate 25 0xFF], seven_literals)"
proof -
  have f: "0 \<le> flags (fst (state_call CALL k, CT_CALL))" "flags (fst (state_call CALL k, CT_CALL)) < 256" for k
    by (simp_all add: state_call_def CALL_def)
  have g: "length (fragment_signature (fst (state_call CALL k, CT_CALL))) = 4"
    "length (contract_address (fst (state_call CALL k, CT_CALL))) = 20" for k
    by (simp_all add: state_call_def example_address_def)
  have n: "flags (fst (state_call CALL [1, 2, 3, 4, 5, 6], CT_CALL)) AND EXTENDED_COMMAND \<noteq> EXTENDED_COMMAND"
    by (simp add: state_call_def CALL_def EXTENDED_COMMAND_def)
  have r: "(0::int) \<le> 0xFF" "(0xFF::int) < 256" by simp_all
  have b6: "\<forall>s \<in> set [0, 1, 2, 3, 4, 5 :: int]. 0 \<le> s \<and> s < 256" by simp
  have b7: "\<forall>s \<in> set [0, 1, 2, 3, 4, 5, 6 :: int]. 0 \<le> s \<and> s < 256" by simp
  from encode_command_threshold[OF six_slots no_return f r b6 g] n
  have "encode_command dynamic_type (state_call CALL [1, 2, 3, 4, 5, 6], CT_CALL) seven_literals =
     Inr ([[0x12, 0x34, 0x56, 0x78] @ [1] @ [0, 1, 2, 3, 4, 5] @ [0xFF] @ example_address], seven_literals)"
    by (simp add: state_call_def CALL_def)
  moreover from encode_command_threshold[OF seven_slots no_return f r b7 g]
  have "encode_command dynamic_type (state_call CALL [1, 2, 3, 4, 5, 6, 7], CT_CALL) seven_literals =
     Inr ([[0x12, 0x34, 0x56, 0x78] @ [0x41] @ replicate 6 0xFF @ [0xFF] @ example_address,
           [0, 1, 2, 3, 4, 5, 6] @ replicate 25 0xFF], seven_literals)"
    by (simp add: state_call_def CALL_def EXTENDED_COMMAND_def)
  ultimately show ?thesis by simp
qed

text \<open>
  Claim C8 as stated fails on a call created with the flags \<^verbatim>\<open>CALL | EXTENDED_COMMAND\<close>
  and two arguments: the encoder emits the extended pair. And a slot number of 256 takes
  two bytes, so the standard word has 33 bytes.
\<close>

theorem preset_extended_flag_two_words:
  "buildCommandArgs dynamic_type (state_call (CALL OR EXTENDED_COMMAND) [1, 2], CT_CALL)
     (returnSlotMap seven_literals) (literalSlotMap seven_literals) (state seven_literals) = Inr [0, 1]
   \<and> encode_command dynamic_type (state_call (CALL OR EXTENDED_COMMAND) [1, 2], CT_CALL) seven_literals =
     Inr ([[0x12, 0x34, 0x56, 0x78] @ [0x41] @ replicate 6 0xFF @ [0xFF] @ example_address,
           [0, 1] @ replicate 30 0xFF], seven_literals)
   \<and> encode_words (state_call CALL [1], CT_CALL) CALL [256] 0xFF =
     Inr [[0x12, 0x34, 0x56, 0x78] @ [1] @ [1, 0] @ replicate 5 0xFF @ [0xFF] @ example_address]
   \<and> length ([0x12, 0x34, 0x56, 0x78] @ [1] @ [1, 0] @ replicate 5 0xFF @ [0xFF] @ example_address :: bytes) = 33"
proof -
  have h: "HexBytes_int 256 = Inr [1, 0]"
    by (simp add: HexBytes_int_def int_to_big_endian.simps[of 256] int_to_big_endian.simps[of "Suc 0"])
  show ?thesis
    by (simp add: eval_defs h state_call_def seven_literals_def dynamic_type_def
        example_address_def)
qed

section \<open>What the walk visits and records\<close>

text \<open>
  The commands the walk visits from a command list: the commands of the list and, for
  every Subplan argument of one of them, the commands visited from that planner.
\<close>

inductive visited :: "heap \<Rightarrow> command list \<Rightarrow> command \<Rightarrow> bool" for h where
  here: "x \<in> set cs \<Longrightarrow> visited h cs x"
| nested: "c \<in> set cs \<Longrightarrow> SubplanValue q \<in> set (args (fst c)) \<Longrightarrow>
     visited h (planner_commands h q) x \<Longrightarrow> visited h cs x"

definition visited_args :: "heap \<Rightarrow> arg list \<Rightarrow> command \<Rightarrow> bool" where
  "visited_args h as x \<longleftrightarrow> (\<exists>q. SubplanValue q \<in> set as \<and> visited h (planner_commands h q) x)"

text \<open>
  The walk has recorded an argument list when every return value in it has a last
  consumer and every literal in it a last use.
\<close>

definition recorded :: "PreplanState \<Rightarrow> arg list \<Rightarrow> bool" where
  "recorded st as \<longleftrightarrow>
     (\<forall>t k. ReturnValue t k \<in> set as \<longrightarrow> k \<in> dom (cvis st))
     \<and> (\<forall>t v. LiteralValue t v \<in> set as \<longrightarrow> v \<in> fst ` set (lvis st))"

lemma visited_Nil [simp]: "\<not> visited h [] x"
proof
  assume "visited h [] x"
  then show False by cases simp_all
qed

lemma visited_Cons:
  "visited h (c # cs) x \<longleftrightarrow> x = c \<or> visited_args h (args (fst c)) x \<or> visited h cs x"
proof
  assume "visited h (c # cs) x"
  then show "x = c \<or> visited_args h (args (fst c)) x \<or> visited h cs x"
  proof (cases rule: visited.cases)
    case here
    then have "x = c \<or> x \<in> set cs" by simp
    then show ?thesis using visited.here[of x cs h] by blast
  next
    case (nested c' q)
    show ?thesis
    proof (cases "c' = c")
      case True
      with nested have "visited_args h (args (fst c)) x" unfolding visited_args_def by blast
      then show ?thesis by simp
    next
      case False
      with nested have "c' \<in> set cs" by simp
      from visited.nested[OF this nested(2) nested(3)] show ?thesis by simp
    qed
  qed
next
  assume "x = c \<or> visited_args h (args (fst c)) x \<or> visited h cs x"
  then show "visited h (c # cs) x"
  proof (elim disjE)
    assume "x = c"
    then show ?thesis by (simp add: visited.here)
  next
    assume "visited_args h (args (fst c)) x"
    then obtain q where a: "SubplanValue q \<in> set (args (fst c))"
      and b: "visited h (planner_commands h q) x"
      by (auto simp: visited_args_def)
    have "c \<in> set (c # cs)" by simp
    from visited.nested[OF this a b] show ?thesis .
  next
    assume "visited h cs x"
    then show ?thesis
    proof (cases rule: visited.cases)
      case here
      then show ?thesis by (simp add: visited.here)
    next
      case (nested c' q)
      from nested(1) have "c' \<in> set (c # cs)" by simp
      from visited.nested[OF this nested(2) nested(3)] show ?thesis .
    qed
  qed
qed

lemma visited_args_Nil [simp]: "\<not> visited_args h [] x"
  by (simp add: visited_args_def)

lemma visited_args_Cons:
  "visited_args h (a # as) x \<longleftrightarrow>
     (\<exists>q. a = SubplanValue q \<and> visited h (planner_commands h q) x) \<or> visited_args h as x"
  by (auto simp: visited_args_def)

lemma inargs_args: "inargs c = Inr ias \<Longrightarrow> set (args (fst c)) \<subseteq> set ias"
  by (auto simp: inargs_def split: if_splits option.splits)

lemma visited_args_mono: "set as \<subseteq> set bs \<Longrightarrow> visited_args h as x \<Longrightarrow> visited_args h bs x"
  by (auto simp: visited_args_def)

lemma recorded_mono:
  "dom (cvis st) \<subseteq> dom (cvis st') \<Longrightarrow> fst ` set (lvis st) \<subseteq> fst ` set (lvis st') \<Longrightarrow>
   recorded st as \<Longrightarrow> recorded st' as"
  unfolding recorded_def by blast

lemma recorded_subset: "set as \<subseteq> set bs \<Longrightarrow> recorded st bs \<Longrightarrow> recorded st as"
  unfolding recorded_def by blast

lemma preplan_cvis_dom_mono:
  "preplan n h p st = Inr st' \<Longrightarrow> dom (cvis st) \<subseteq> dom (cvis st')"
  "preplan_commands n h cs st = Inr st' \<Longrightarrow> dom (cvis st) \<subseteq> dom (cvis st')"
  "preplan_args n h c as st = Inr st' \<Longrightarrow> dom (cvis st) \<subseteq> dom (cvis st')"
  by (rule preplan_rel[where R="\<lambda>a b. dom (cvis a) \<subseteq> dom (cvis b)", rule_format]; auto)+

lemma preplan_lvis_keys_mono:
  "preplan n h p st = Inr st' \<Longrightarrow> fst ` set (lvis st) \<subseteq> fst ` set (lvis st')"
  "preplan_commands n h cs st = Inr st' \<Longrightarrow> fst ` set (lvis st) \<subseteq> fst ` set (lvis st')"
  "preplan_args n h c as st = Inr st' \<Longrightarrow> fst ` set (lvis st) \<subseteq> fst ` set (lvis st')"
  by (rule preplan_rel[where R="\<lambda>a b. fst ` set (lvis a) \<subseteq> fst ` set (lvis b)", rule_format];
      auto simp: dict_set_keys)+



lemma recorded_Cons [simp]:
  "recorded st (LiteralValue t v # as) \<longleftrightarrow> v \<in> fst ` set (lvis st) \<and> recorded st as"
  "recorded st (ReturnValue t k # as) \<longleftrightarrow> k \<in> dom (cvis st) \<and> recorded st as"
  "recorded st (StateValue # as) \<longleftrightarrow> recorded st as"
  "recorded st (SubplanValue q # as) \<longleftrightarrow> recorded st as"
  "recorded st (Value t # as) \<longleftrightarrow> recorded st as"
  "recorded st []"
  unfolding recorded_def by (auto simp del: split_paired_All split_paired_Ex)

lemma preplan_records:
  "(preplan n h p st = Inr st' \<longrightarrow>
      (\<forall>x. visited h (planner_commands h p) x \<longrightarrow> recorded st' (args (fst x))))"
  "(preplan_commands n h cs st = Inr st' \<longrightarrow>
      (\<forall>x. visited h cs x \<longrightarrow> recorded st' (args (fst x))))"
  "(preplan_args n h c as st = Inr st' \<longrightarrow>
      recorded st' as \<and> (\<forall>x. visited_args h as x \<longrightarrow> recorded st' (args (fst x))))"
proof (induction n h p st and n h cs st and n h c as st arbitrary: st' and st' and st'
       rule: preplan_preplan_commands_preplan_args.induct)
  case (1 h p st)
  then show ?case by simp
next
  case (2 n h p st)
  then show ?case by (auto split: if_splits)
next
  case (3 n h st)
  then show ?case by simp
next
  case (4 n h c cs st)
  show ?case
  proof (intro impI allI)
    fix x
    assume a: "preplan_commands n h (c # cs) st = Inr st'" and v: "visited h (c # cs) x"
    from a obtain ias st1 where i: "inargs c = Inr ias" and p1: "preplan_args n h c ias st = Inr st1"
      and p2: "preplan_commands n h cs (st1\<lparr>seen := insert (key c) (seen st1)\<rparr>) = Inr st'"
      by (auto split: sum.splits)
    from 4(1)[OF i] p1 have r1: "recorded st1 ias"
      and r2: "\<forall>x. visited_args h ias x \<longrightarrow> recorded st1 (args (fst x))" by simp_all
    from preplan_cvis_dom_mono(2)[OF p2] preplan_lvis_keys_mono(2)[OF p2]
    have m: "recorded st1 bs \<Longrightarrow> recorded st' bs" for bs
      by (intro recorded_mono[of st1 st' bs]) simp_all
    from v show "recorded st' (args (fst x))" unfolding visited_Cons
    proof (elim disjE)
      assume "x = c"
      with r1 inargs_args[OF i] have "recorded st1 (args (fst x))" by (simp add: recorded_subset)
      then show ?thesis by (rule m)
    next
      assume "visited_args h (args (fst c)) x"
      with inargs_args[OF i] have "visited_args h ias x" by (rule visited_args_mono)
      with r2 have "recorded st1 (args (fst x))" by blast
      then show ?thesis by (rule m)
    next
      assume "visited h cs x"
      with 4(2)[OF i p1] p2 show ?thesis by blast
    qed
  qed
next
  case (5 n h c st)
  then show ?case by simp
next
  case (6 n h c a as st)
  show ?case
  proof (cases a)
    case (LiteralValue t v)
    show ?thesis
    proof (intro impI)
      assume "preplan_args n h c (a # as) st = Inr st'"
      with LiteralValue have p: "preplan_args n h c as (st\<lparr>lvis := dict_set (lvis st) v (key c)\<rparr>) = Inr st'"
        by simp
      from preplan_lvis_keys_mono(3)[OF p] have "v \<in> fst ` set (lvis st')"
        by (auto simp: dict_set_keys)
      with 6(1)[OF LiteralValue] p LiteralValue
      show "recorded st' (a # as) \<and> (\<forall>x. visited_args h (a # as) x \<longrightarrow> recorded st' (args (fst x)))"
        by (simp add: visited_args_Cons)
    qed
  next
    case (ReturnValue t k)
    show ?thesis
    proof (intro impI)
      assume "preplan_args n h c (a # as) st = Inr st'"
      with ReturnValue have k: "\<not> k \<notin> seen st"
        and p: "preplan_args n h c as (st\<lparr>cvis := (cvis st)(k \<mapsto> key c)\<rparr>) = Inr st'"
        by (simp_all split: if_splits)
      from preplan_cvis_dom_mono(3)[OF p] have "k \<in> dom (cvis st')" by auto
      with 6(2)[OF ReturnValue k] p ReturnValue
      show "recorded st' (a # as) \<and> (\<forall>x. visited_args h (a # as) x \<longrightarrow> recorded st' (args (fst x)))"
        by (simp add: visited_args_Cons)
    qed
  next
    case StateValue
    with 6(3) show ?thesis by (simp add: visited_args_Cons)
  next
    case (SubplanValue q)
    show ?thesis
    proof (intro impI)
      assume "preplan_args n h c (a # as) st = Inr st'"
      with SubplanValue obtain st1 where p1: "preplan n h q st = Inr st1"
        and p2: "preplan_args n h c as (if fragment_outputs (fst c) = [] then st1\<lparr>seen := seen st\<rparr> else st1) = Inr st'"
        by (auto split: sum.splits)
      let ?s = "if fragment_outputs (fst c) = [] then st1\<lparr>seen := seen st\<rparr> else st1"
      from preplan_cvis_dom_mono(3)[OF p2] preplan_lvis_keys_mono(3)[OF p2]
      have m: "recorded st1 bs \<Longrightarrow> recorded st' bs" for bs
        by (intro recorded_mono[of st1 st' bs]) (simp_all split: if_splits)
      from 6(4)[OF SubplanValue] p1
      have r: "\<forall>x. visited h (planner_commands h q) x \<longrightarrow> recorded st1 (args (fst x))" by simp
      from 6(5)[OF SubplanValue p1] p2
      have r1: "recorded st' as" and r2: "\<forall>x. visited_args h as x \<longrightarrow> recorded st' (args (fst x))"
        by simp_all
      from r m r1 r2 SubplanValue
      show "recorded st' (a # as) \<and> (\<forall>x. visited_args h (a # as) x \<longrightarrow> recorded st' (args (fst x)))"
        by (auto simp: visited_args_Cons)
    qed
  next
    case (Value t)
    then show ?thesis by simp
  qed
qed

section \<open>The error of a planner that contains itself\<close>












section \<open>Runs of the encoder\<close>

text \<open>
  The commands in the order \<^verbatim>\<open>_buildCommands\<close> encodes them, to the depth \<open>n\<close>: the
  commands of the subplanner of a \<^verbatim>\<open>SUBPLAN\<close> command come before the command itself.
\<close>

fun emission :: "nat \<Rightarrow> heap \<Rightarrow> nat \<Rightarrow> command list"
  and emission_loop :: "nat \<Rightarrow> heap \<Rightarrow> command list \<Rightarrow> command list"
where
  "emission 0 h p = []"
| "emission (Suc n) h p = emission_loop n h (planner_commands h p)"
| "emission_loop n h [] = []"
| "emission_loop n h (c # cs) =
     (if snd c = CT_SUBPLAN then
        (case first_subplan (args (fst c)) of None \<Rightarrow> [] | Some q \<Rightarrow> emission n h q)
      else [])
     @ c # emission_loop n h cs"

text \<open>
  A run of the encoder that returns, as a relation: from the planner state \<open>ps\<close> the
  command list is encoded in the order \<open>tr\<close> and leaves the planner state \<open>ps'\<close>.
  \<open>store_subplan\<close> is the step that stores the serialised subplan.
\<close>

definition store_subplan :: "bytes \<Rightarrow> PlannerState \<Rightarrow> PlannerState" where
  "store_subplan blob ps =
     ps\<lparr>state := state ps @ [blob],
        freeSlots := freeSlots ps @ [int (length (state ps @ [blob])) - 1]\<rparr>"

inductive run ::
  "(string \<Rightarrow> bool) \<Rightarrow> heap \<Rightarrow> command list \<Rightarrow> PlannerState \<Rightarrow> command list \<Rightarrow> PlannerState \<Rightarrow> bool"
  for dyn h where
  run_Nil: "run dyn h [] ps [] ps"
| run_plain: "snd c \<noteq> CT_SUBPLAN \<Longrightarrow> encode_command dyn c ps = Inr (ws, ps1) \<Longrightarrow>
     run dyn h cs ps1 tr ps' \<Longrightarrow> run dyn h (c # cs) ps (c # tr) ps'"
| run_subplan: "snd c = CT_SUBPLAN \<Longrightarrow> first_subplan (args (fst c)) = Some q \<Longrightarrow>
     run dyn h (planner_commands h q) ps tr1 ps1 \<Longrightarrow>
     encode_command dyn c (store_subplan blob ps1) = Inr (ws, ps3) \<Longrightarrow>
     run dyn h cs ps3 tr2 ps' \<Longrightarrow> run dyn h (c # cs) ps (tr1 @ c # tr2) ps'"

lemma build_run:
  "(buildCommands dyn n h p ps = Inr (out, ps') \<longrightarrow>
      run dyn h (planner_commands h p) ps (emission n h p) ps')"
  "(build_loop dyn n h cs ps = Inr (out, ps') \<longrightarrow> run dyn h cs ps (emission_loop n h cs) ps')"
proof (induction dyn n h p ps and dyn n h cs ps arbitrary: out ps' and out ps'
       rule: buildCommands_build_loop.induct)
  case (1 dyn h p ps)
  then show ?case by simp
next
  case (2 dyn n h p ps)
  then show ?case by simp
next
  case (3 dyn n h ps)
  then show ?case by (simp add: run_Nil)
next
  case (4 dyn n h c cs ps)
  show ?case
  proof
    assume a: "build_loop dyn n h (c # cs) ps = Inr (out, ps')"
    show "run dyn h (c # cs) ps (emission_loop n h (c # cs)) ps'"
    proof (cases "snd c = CT_SUBPLAN")
      case False
      with a obtain ws ps3 rest where e: "encode_command dyn c ps = Inr (ws, ps3)"
        and r: "build_loop dyn n h cs ps3 = Inr (rest, ps')"
        by (auto split: sum.splits prod.splits)
      from False e have "(if snd c = CT_SUBPLAN
            then case first_subplan (args (fst c)) of
                 None \<Rightarrow> Inl StopIteration
                 | Some q \<Rightarrow>
                     case buildCommands dyn n h q ps of Inl x \<Rightarrow> Inl x
                     | Inr (subcommands, ps1) \<Rightarrow>
                         case encode_bytes32_array subcommands of
                         Inl x \<Rightarrow> Inl x
                         | Inr blob \<Rightarrow>
                             Inr (ps1\<lparr>state := state ps1 @ [blob],
  freeSlots := freeSlots ps1 @ [int (length (state ps1 @ [blob])) - 1]\<rparr>)
            else Inr ps) = Inr ps" by simp
      from 4(2)[OF this e refl] r have "run dyn h cs ps3 (emission_loop n h cs) ps'" by simp
      with False e show ?thesis by (simp add: run_plain)
    next
      case True
      with a obtain q sub ps1 blob ws ps3 rest where
        f: "first_subplan (args (fst c)) = Some q"
        and b: "buildCommands dyn n h q ps = Inr (sub, ps1)"
        and en: "encode_bytes32_array sub = Inr blob"
        and e: "encode_command dyn c (store_subplan blob ps1) = Inr (ws, ps3)"
        and r: "build_loop dyn n h cs ps3 = Inr (rest, ps')"
        by (auto simp: store_subplan_def split: sum.splits prod.splits option.splits)
      from 4(1)[OF True f] b
      have r1: "run dyn h (planner_commands h q) ps (emission n h q) ps1" by simp
      from True f b en have "(if snd c = CT_SUBPLAN
            then case first_subplan (args (fst c)) of
                 None \<Rightarrow> Inl StopIteration
                 | Some q \<Rightarrow>
                     case buildCommands dyn n h q ps of Inl x \<Rightarrow> Inl x
                     | Inr (subcommands, ps1) \<Rightarrow>
                         case encode_bytes32_array subcommands of
                         Inl x \<Rightarrow> Inl x
                         | Inr blob \<Rightarrow>
                             Inr (ps1\<lparr>state := state ps1 @ [blob],
  freeSlots := freeSlots ps1 @ [int (length (state ps1 @ [blob])) - 1]\<rparr>)
            else Inr ps) = Inr (store_subplan blob ps1)" by (simp add: store_subplan_def)
      from 4(2)[OF this e refl] r have "run dyn h cs ps3 (emission_loop n h cs) ps'" by simp
      from run_subplan[OF True f r1 e this] True f show ?thesis by simp
    qed
  qed
qed

section \<open>State-replacing commands whose return value is consumed\<close>

lemma return_slot_fixed:
  assumes "return_slot dyn c ps = Inr (ret, ps')"
  shows "commandVisibility ps' = commandVisibility ps"
    and "literalSlotMap ps' = literalSlotMap ps"
    and "\<exists>ext. state ps' = state ps @ ext"
    and "commandVisibility ps (key c) \<noteq> None \<longrightarrow> snd c = CT_CALL"
  using assms
  by (auto simp: return_slot_def Let_def split: option.splits if_splits intro: CommandType.exhaust)

lemma encode_command_fixed:
  assumes "encode_command dyn c ps = Inr (ws, ps')"
  shows "commandVisibility ps' = commandVisibility ps"
    and "literalSlotMap ps' = literalSlotMap ps"
    and "\<exists>ext. state ps' = state ps @ ext"
    and "commandVisibility ps (key c) \<noteq> None \<longrightarrow> snd c = CT_CALL"
proof -
  from assms obtain slots ret where
    r: "return_slot dyn c (ps\<lparr>freeSlots := freeSlots ps @ stateExpirations ps (key c)\<rparr>) = Inr (ret, ps')"
    by (auto simp: encode_command_def Let_def split: sum.splits prod.splits)
  from return_slot_fixed[OF r]
  show "commandVisibility ps' = commandVisibility ps"
    and "literalSlotMap ps' = literalSlotMap ps"
    and "\<exists>ext. state ps' = state ps @ ext"
    and "commandVisibility ps (key c) \<noteq> None \<longrightarrow> snd c = CT_CALL"
    by simp_all
qed

lemma store_subplan_fixed [simp]:
  "commandVisibility (store_subplan blob ps) = commandVisibility ps"
  "literalSlotMap (store_subplan blob ps) = literalSlotMap ps"
  "returnSlotMap (store_subplan blob ps) = returnSlotMap ps"
  "stateExpirations (store_subplan blob ps) = stateExpirations ps"
  "state (store_subplan blob ps) = state ps @ [blob]"
  "freeSlots (store_subplan blob ps) = freeSlots ps @ [int (length (state ps))]"
  by (simp_all add: store_subplan_def)

lemma run_fixed:
  assumes "run dyn h cs ps tr ps'"
  shows "commandVisibility ps' = commandVisibility ps \<and> literalSlotMap ps' = literalSlotMap ps
     \<and> (\<exists>ext. state ps' = state ps @ ext)
     \<and> (\<forall>c \<in> set tr. commandVisibility ps (key c) \<noteq> None \<longrightarrow> snd c = CT_CALL)"
  using assms
proof (induction rule: run.induct)
  case (run_Nil ps)
  then show ?case by simp
next
  case (run_plain c ps ws ps1 cs tr ps')
  from encode_command_fixed[OF run_plain(2)] run_plain(4) show ?case by auto
next
  case (run_subplan c q ps tr1 ps1 blob ws ps3 cs tr2 ps')
  from encode_command_fixed[OF run_subplan(4)] run_subplan(6,7) show ?case by auto
qed


lemma initial_state_fixed [simp]:
  "commandVisibility (initial_state pst) = cvis pst"
  "returnSlotMap (initial_state pst) = Map.empty"
  "freeSlots (initial_state pst) = []"
  by (simp_all add: initial_state_def split: prod.splits)

text \<open>The errors of the steps of the encoder that do not call \<^verbatim>\<open>_buildCommands\<close>.\<close>

lemma hexConcat_errors:
  "(item_bytes x = Inl e \<longrightarrow> e = NegativeInteger)"
  "(hexConcat xs = Inl e \<longrightarrow> e = NegativeInteger)"
proof (induction x and xs rule: item_bytes_hexConcat.induct)
  case (1 b)
  then show ?case by simp
next
  case (2 i)
  then show ?case by (simp add: HexBytes_int_def)
next
  case (3 xs)
  then show ?case by simp
next
  case 4
  then show ?case by simp
next
  case (5 x xs)
  then show ?case by (auto split: sum.splits)
qed

lemma encode_bytes32_array_errors: "encode_bytes32_array ws = Inl e \<Longrightarrow> e = ValueOutOfBounds"
  by (induction ws) (auto split: if_splits sum.splits)

lemma arg_slots_errors:
  "arg_slots dyn rsm lsm st as = Inl e \<Longrightarrow> e = KeyError \<or> e = UnknownArgumentType"
proof (induction as)
  case Nil
  then show ?case by simp
next
  case (Cons a as)
  then show ?case
    by (cases a) (auto simp: arg_slot_def split: sum.splits option.splits)
qed

lemma encode_words_errors:
  assumes "encode_words c fl slots ret = Inl e"
  shows "e = NegativeInteger"
proof (cases "fl AND EXTENDED_COMMAND = EXTENDED_COMMAND")
  case True
  let ?a = "[HexString (fragment_signature (fst c)), Integer fl,
             ItemList (map Integer (replicate 6 0xFF)), Integer ret,
             HexString (contract_address (fst c))]"
  let ?b = "[ItemList (map Integer (padArray slots 32 0xFF))]"
  show ?thesis
  proof (cases "hexConcat ?a")
    case (Inl e')
    with assms True have "e = e'" by (simp add: encode_words_def del: hexConcat.simps)
    with hexConcat_errors(2)[of ?a e'] Inl show ?thesis by simp
  next
    case (Inr w)
    with assms True have "hexConcat ?b = Inl e"
      by (simp add: encode_words_def del: hexConcat.simps split: sum.splits)
    with hexConcat_errors(2)[of ?b e] show ?thesis by simp
  qed
next
  case False
  let ?a = "[HexString (fragment_signature (fst c)), Integer fl,
             ItemList (map Integer (padArray slots 6 0xFF)), Integer ret,
             HexString (contract_address (fst c))]"
  from assms False have "hexConcat ?a = Inl e"
    by (simp add: encode_words_def del: hexConcat.simps split: sum.splits)
  with hexConcat_errors(2)[of ?a e] show ?thesis by simp
qed

lemma encode_command_errors:
  assumes "encode_command dyn c ps = Inl e"
  shows "e \<noteq> RecursionError"
proof (cases "buildCommandArgs dyn c (returnSlotMap ps) (literalSlotMap ps) (state ps)")
  case (Inl e')
  with assms have e: "e = e'" by (simp add: encode_command_def)
  from Inl have "e' = CallValueMissing \<or> e' = KeyError \<or> e' = UnknownArgumentType"
    using arg_slots_errors[of dyn "returnSlotMap ps" "literalSlotMap ps" "state ps" _ e']
    by (auto simp: buildCommandArgs_def inargs_def split: sum.splits if_splits option.splits)
  with e show ?thesis by auto
next
  case (Inr slots)
  let ?ps1 = "ps\<lparr>freeSlots := freeSlots ps @ stateExpirations ps (key c)\<rparr>"
  show ?thesis
  proof (cases "return_slot dyn c ?ps1")
    case (Inl e')
    with assms Inr have "e = e'" by (simp add: encode_command_def Let_def)
    moreover from Inl have "e' = AmbiguousReturn"
      by (auto simp: return_slot_def Let_def split: option.splits if_splits)
    ultimately show ?thesis by simp
  next
    case r: (Inr rp)
    obtain ret ps2 where rp: "rp = (ret, ps2)" by (cases rp)
    let ?fl = "if length slots > 6 then flags (fst c) OR EXTENDED_COMMAND else flags (fst c)"
    from assms Inr r rp have "encode_words c ?fl slots ret = Inl e"
      by (auto simp: encode_command_def Let_def split: sum.splits if_splits)
    from encode_words_errors[OF this] show ?thesis by simp
  qed
qed

text \<open>A walk of an argument list that returns has entered every planner in it.\<close>

lemma first_subplan_in: "first_subplan as = Some q \<Longrightarrow> SubplanValue q \<in> set as"
  by (induction as rule: first_subplan.induct) auto

lemma preplan_args_enters:
  "preplan_args n h c as st = Inr st' \<Longrightarrow> SubplanValue q \<in> set as \<Longrightarrow>
   \<exists>sx sy. preplan n h q sx = Inr sy"
proof (induction as arbitrary: st)
  case Nil
  then show ?case by simp
next
  case (Cons a as)
  show ?case
  proof (cases a)
    case (LiteralValue p v)
    with Cons show ?thesis by auto
  next
    case (ReturnValue p k)
    with Cons show ?thesis by (auto split: if_splits)
  next
    case StateValue
    with Cons show ?thesis by auto
  next
    case (SubplanValue q')
    with Cons.prems(1) obtain st1 where a: "preplan n h q' st = Inr st1"
      and b: "preplan_args n h c as (if fragment_outputs (fst c) = [] then st1\<lparr>seen := seen st\<rparr> else st1) = Inr st'"
      by (auto split: sum.splits)
    show ?thesis
    proof (cases "q' = q")
      case True
      with a show ?thesis by blast
    next
      case False
      with Cons.prems(2) SubplanValue have "SubplanValue q \<in> set as" by simp
      from Cons.IH[OF b this] show ?thesis .
    qed
  next
    case (Value p)
    with Cons show ?thesis by auto
  qed
qed

text \<open>
  The block of \<^verbatim>\<open>_buildCommands\<close> that builds the subplanner of a \<^verbatim>\<open>SUBPLAN\<close> command
  before the command itself is encoded.
\<close>

definition subplan_step ::
  "(string \<Rightarrow> bool) \<Rightarrow> nat \<Rightarrow> heap \<Rightarrow> command \<Rightarrow> PlannerState \<Rightarrow> error + PlannerState" where
  "subplan_step dyn n h c ps =
     (if snd c = CT_SUBPLAN then
        (case first_subplan (args (fst c)) of
           None \<Rightarrow> Inl StopIteration
         | Some q \<Rightarrow>
             (case buildCommands dyn n h q ps of
                Inl e \<Rightarrow> Inl e
              | Inr (subcommands, ps1) \<Rightarrow>
                  (case encode_bytes32_array subcommands of
                     Inl e \<Rightarrow> Inl e
                   | Inr blob \<Rightarrow> Inr (store_subplan blob ps1))))
      else Inr ps)"

lemma build_loop_Cons:
  "build_loop dyn n h (c # cs) ps =
     (case subplan_step dyn n h c ps of
        Inl e \<Rightarrow> Inl e
      | Inr ps2 \<Rightarrow>
          (case encode_command dyn c ps2 of
             Inl e \<Rightarrow> Inl e
           | Inr (ws, ps3) \<Rightarrow>
               (case build_loop dyn n h cs ps3 of
                  Inl e \<Rightarrow> Inl e
                | Inr (rest, ps4) \<Rightarrow> Inr (ws @ rest, ps4))))"
proof (cases "snd c = CT_SUBPLAN")
  case False
  then show ?thesis by (simp add: subplan_step_def)
next
  case True
  show ?thesis
  proof (cases "first_subplan (args (fst c))")
    case None
    with True show ?thesis by (simp add: subplan_step_def)
  next
    case (Some q)
    show ?thesis
    proof (cases "buildCommands dyn n h q ps")
      case (Inl e)
      with True Some show ?thesis by (simp add: subplan_step_def)
    next
      case (Inr r)
      obtain sub ps1 where r: "r = (sub, ps1)" by (cases r)
      show ?thesis
      proof (cases "encode_bytes32_array sub")
        case (Inl e)
        with True Some Inr r show ?thesis by (simp add: subplan_step_def)
      next
        case b: (Inr blob)
        with True Some Inr r show ?thesis by (simp add: subplan_step_def store_subplan_def)
      qed
    qed
  qed
qed

lemma build_loop_append:
  "build_loop dyn n h (pre @ cs) ps =
     (case build_loop dyn n h pre ps of
        Inl e \<Rightarrow> Inl e
      | Inr (o1, ps1) \<Rightarrow>
          (case build_loop dyn n h cs ps1 of
             Inl e \<Rightarrow> Inl e
           | Inr (o2, ps2) \<Rightarrow> Inr (o1 @ o2, ps2)))"
proof (induction pre arbitrary: ps)
  case Nil
  then show ?case by (simp split: sum.splits prod.splits)
next
  case (Cons c pre)
  show ?case
    unfolding append_Cons build_loop_Cons Cons.IH
    by (simp split: sum.splits prod.splits)
qed

text \<open>
  The encoder enters the subplanners of the \<^verbatim>\<open>SUBPLAN\<close> commands only, and the walk
  has entered each of them with the same room left: where the walk returns, the encoder
  does not raise \<open>RecursionError\<close>.
\<close>

lemma build_no_recursion_error:
  "(preplan n h p st = Inr st' \<longrightarrow> buildCommands dyn n h p ps \<noteq> Inl RecursionError)"
  "(preplan_commands n h cs st = Inr st' \<longrightarrow> build_loop dyn n h cs ps \<noteq> Inl RecursionError)"
proof (induction dyn n h p ps and dyn n h cs ps arbitrary: st st' and st st'
       rule: buildCommands_build_loop.induct)
  case (1 dyn h p ps)
  then show ?case by simp
next
  case (2 dyn n h p ps)
  show ?case
  proof
    assume "preplan (Suc n) h p st = Inr st'"
    then have "preplan_commands n h (planner_commands h p) (st\<lparr>planners := insert p (planners st)\<rparr>) = Inr st'"
      by (auto split: if_splits)
    with 2 show "buildCommands dyn (Suc n) h p ps \<noteq> Inl RecursionError" by simp
  qed
next
  case (3 dyn n h ps)
  then show ?case by simp
next
  case (4 dyn n h c cs ps)
  show ?case
  proof
    assume a: "preplan_commands n h (c # cs) st = Inr st'"
    then obtain ias st1 where i: "inargs c = Inr ias" and p1: "preplan_args n h c ias st = Inr st1"
      and p2: "preplan_commands n h cs (st1\<lparr>seen := insert (key c) (seen st1)\<rparr>) = Inr st'"
      by (auto split: sum.splits)
    show "build_loop dyn n h (c # cs) ps \<noteq> Inl RecursionError"
    proof (cases "subplan_step dyn n h c ps")
      case (Inl e)
      have "e \<noteq> RecursionError"
      proof (cases "snd c = CT_SUBPLAN")
        case False
        with Inl show ?thesis by (simp add: subplan_step_def)
      next
        case True
        show ?thesis
        proof (cases "first_subplan (args (fst c))")
          case None
          with True Inl show ?thesis by (auto simp: subplan_step_def)
        next
          case (Some q)
          from first_subplan_in[OF Some] inargs_args[OF i] have "SubplanValue q \<in> set ias" by blast
          from preplan_args_enters[OF p1 this] obtain sx sy where "preplan n h q sx = Inr sy" by blast
          with 4(1)[OF True Some, of sx sy] have nr: "buildCommands dyn n h q ps \<noteq> Inl RecursionError"
            by simp
          show ?thesis
          proof (cases "buildCommands dyn n h q ps")
            case b: (Inl e')
            with True Some Inl nr show ?thesis by (auto simp: subplan_step_def)
          next
            case b: (Inr r)
            obtain sub ps1 where "r = (sub, ps1)" by (cases r)
            with b True Some Inl have "encode_bytes32_array sub = Inl e"
              by (auto simp: subplan_step_def split: sum.splits)
            from encode_bytes32_array_errors[OF this] show ?thesis by simp
          qed
        qed
      qed
      with Inl show ?thesis unfolding build_loop_Cons by simp
    next
      case (Inr ps2)
      note s = this
      show ?thesis
      proof (cases "encode_command dyn c ps2")
        case (Inl e)
        from encode_command_errors[OF this] s Inl show ?thesis unfolding build_loop_Cons by simp
      next
        case e: (Inr r)
        obtain ws ps3 where r: "r = (ws, ps3)" by (cases r)
        from s have s': "(if snd c = CT_SUBPLAN
            then case first_subplan (args (fst c)) of
                 None \<Rightarrow> Inl StopIteration
                 | Some q \<Rightarrow>
                     case buildCommands dyn n h q ps of Inl x \<Rightarrow> Inl x
                     | Inr (subcommands, ps1) \<Rightarrow>
                         case encode_bytes32_array subcommands of
                         Inl x \<Rightarrow> Inl x
                         | Inr blob \<Rightarrow>
                             Inr (ps1\<lparr>state := state ps1 @ [blob],
  freeSlots := freeSlots ps1 @ [int (length (state ps1 @ [blob])) - 1]\<rparr>)
            else Inr ps) = Inr ps2"
          unfolding subplan_step_def store_subplan_def .
        from e r have e': "encode_command dyn c ps2 = Inr (ws, ps3)" by simp
        from 4(2)[OF s' e' refl, of "st1\<lparr>seen := insert (key c) (seen st1)\<rparr>" st'] p2
        have "build_loop dyn n h cs ps3 \<noteq> Inl RecursionError" by simp
        with s e' show ?thesis unfolding build_loop_Cons by (auto split: sum.splits)
      qed
    qed
  qed
qed



text \<open>The encoder does not change \<^verbatim>\<open>commandVisibility\<close>.\<close>

lemma build_loop_fixed:
  assumes "build_loop dyn n h cs ps = Inr (out, ps')"
  shows "commandVisibility ps' = commandVisibility ps"
proof -
  from build_run(2)[of dyn n h cs ps out ps'] assms
  have "run dyn h cs ps (emission_loop n h cs) ps'" by simp
  from run_fixed[OF this] show ?thesis by simp
qed

lemma subplan_step_fixed:
  assumes "subplan_step dyn n h c ps = Inr ps2"
  shows "commandVisibility ps2 = commandVisibility ps"
proof (cases "snd c = CT_SUBPLAN")
  case False
  with assms show ?thesis by (simp add: subplan_step_def)
next
  case True
  with assms obtain q sub ps1 blob where
    "buildCommands dyn n h q ps = Inr (sub, ps1)" and p: "ps2 = store_subplan blob ps1"
    by (auto simp: subplan_step_def split: option.splits sum.splits prod.splits)
  with build_run(1)[of dyn n h q ps sub ps1]
  have "run dyn h (planner_commands h q) ps (emission n h q) ps1" by simp
  from run_fixed[OF this] p show ?thesis by simp
qed

text \<open>
  The encoder gets as far as the return-slot check of a command: in the command list
  it runs on, the commands before the command are encoded, the subplanner of the command
  is built if it is a \<^verbatim>\<open>SUBPLAN\<close> command, and its arguments are resolved; or the
  commands before a \<^verbatim>\<open>SUBPLAN\<close> command are encoded, and in the subplanner of that
  command the encoder gets as far as the check. The number is the room for nested calls,
  as in \<open>build_loop\<close>.
\<close>

inductive reaches_check ::
  "(string \<Rightarrow> bool) \<Rightarrow> heap \<Rightarrow> nat \<Rightarrow> command list \<Rightarrow> PlannerState \<Rightarrow> command \<Rightarrow> bool"
  for dyn h where
  own: "build_loop dyn m h pre ps = Inr (out, ps1) \<Longrightarrow>
     subplan_step dyn m h c ps1 = Inr ps2 \<Longrightarrow>
     buildCommandArgs dyn c (returnSlotMap ps2) (literalSlotMap ps2) (state ps2) = Inr slots \<Longrightarrow>
     reaches_check dyn h m (pre @ c # post) ps c"
| inner: "build_loop dyn (Suc m) h pre ps = Inr (out, ps1) \<Longrightarrow>
     snd c0 = CT_SUBPLAN \<Longrightarrow> first_subplan (args (fst c0)) = Some q \<Longrightarrow>
     reaches_check dyn h m (planner_commands h q) ps1 c \<Longrightarrow>
     reaches_check dyn h (Suc m) (pre @ c0 # post) ps c"

lemma reaches_check_fails:
  assumes "reaches_check dyn h m cs ps c"
      and "commandVisibility ps (key c) \<noteq> None"
      and "snd c = CT_RAWCALL \<or> snd c = CT_SUBPLAN"
  shows "build_loop dyn m h cs ps = Inl AmbiguousReturn"
  using assms
proof (induction rule: reaches_check.induct)
  case (own m pre ps out ps1 c ps2 slots post)
  from build_loop_fixed[OF own(1)] subplan_step_fixed[OF own(2)] own(4)
  have "commandVisibility ps2 (key c) \<noteq> None" by simp
  with own(3,5) have "encode_command dyn c ps2 = Inl AmbiguousReturn"
    by (auto simp: encode_command_def return_slot_def Let_def)
  with own(2) have "build_loop dyn m h (c # post) ps1 = Inl AmbiguousReturn"
    unfolding build_loop_Cons by simp
  with own(1) show ?case unfolding build_loop_append by simp
next
  case (inner m pre ps out ps1 c0 q c post)
  from build_loop_fixed[OF inner(1)] inner(6)
  have "commandVisibility ps1 (key c) \<noteq> None" by simp
  from inner(5)[OF this inner(7)]
  have "buildCommands dyn (Suc m) h q ps1 = Inl AmbiguousReturn" by simp
  with inner(2,3) have "subplan_step dyn (Suc m) h c0 ps1 = Inl AmbiguousReturn"
    by (simp add: subplan_step_def)
  then have "build_loop dyn (Suc m) h (c0 # post) ps1 = Inl AmbiguousReturn"
    unfolding build_loop_Cons by simp
  with inner(1) show ?case unfolding build_loop_append by simp
qed

text \<open>
  Claim C9 says that \<^verbatim>\<open>plan()\<close> fails with the error ``Return value ... cannot be used
  to replace state and in another function'' for every \<^verbatim>\<open>RAWCALL\<close> or \<^verbatim>\<open>SUBPLAN\<close>
  command whose return value another command consumes. The check sits in the encoder:
  the visibility walk and the encoding of the commands before it come first, and either
  may fail with an error of its own. As amended: for every \<^verbatim>\<open>RAWCALL\<close> or \<^verbatim>\<open>SUBPLAN\<close>
  command that the encoder emits and whose return value a command of the planner tree
  consumes as a Return argument, and a call stack with room for more nested calls than
  there are planners, \<^verbatim>\<open>plan()\<close> fails with an error other than \<open>RecursionError\<close> and
  produces no output; and the error is that of the claim whenever the walk returns and
  the encoder gets as far as the check of the command.
\<close>

theorem consumed_state_replacing_command_fails:
  assumes em: "c \<in> set (emission n h p)"
      and ty: "snd c = CT_RAWCALL \<or> snd c = CT_SUBPLAN"
      and vi: "visited h (planner_commands h p) D"
      and co: "ReturnValue t (key c) \<in> set (args (fst D))"
      and fu: "length h < n"
  shows "(\<exists>e. plan dyn n h d p = Inl e \<and> e \<noteq> RecursionError)
     \<and> (\<forall>pst.
           preplan n h p \<lparr>cvis = Map.empty, lvis = [], seen = fst d, planners = snd d\<rparr> = Inr pst \<longrightarrow>
           reaches_check dyn h (n - 1) (planner_commands h p) (initial_state pst) c \<longrightarrow>
           plan dyn n h d p = Inl AmbiguousReturn)"
proof
  let ?st = "\<lparr>cvis = Map.empty, lvis = [], seen = fst d, planners = snd d\<rparr>"
  show "\<exists>e. plan dyn n h d p = Inl e \<and> e \<noteq> RecursionError"
  proof (cases "preplan n h p ?st")
    case (Inl e)
    from fu unvisited_le[of h ?st] have "unvisited h ?st < n" by simp
    with preplan_enough_fuel(1)[of h ?st n p] Inl have "e \<noteq> RecursionError" by auto
    with Inl show ?thesis by (simp add: plan_def)
  next
    case (Inr pst)
    from preplan_records(1)[rule_format, OF Inr vi] co
    have k: "cvis pst (key c) \<noteq> None" unfolding recorded_def by blast
    show ?thesis
    proof (cases "buildCommands dyn n h p (initial_state pst)")
      case (Inl e)
      with build_no_recursion_error(1)[of n h p ?st pst dyn "initial_state pst"] Inr
      have "e \<noteq> RecursionError" by auto
      with Inr Inl show ?thesis by (simp add: plan_def)
    next
      case b: (Inr r)
      obtain out ps' where "r = (out, ps')" by (cases r)
      with b build_run(1)[of dyn n h p "initial_state pst" out ps']
      have "run dyn h (planner_commands h p) (initial_state pst) (emission n h p) ps'" by simp
      from run_fixed[OF this] em k have "snd c = CT_CALL" by simp
      with ty show ?thesis by simp
    qed
  qed
next
  let ?st = "\<lparr>cvis = Map.empty, lvis = [], seen = fst d, planners = snd d\<rparr>"
  show "\<forall>pst. preplan n h p ?st = Inr pst \<longrightarrow>
           reaches_check dyn h (n - 1) (planner_commands h p) (initial_state pst) c \<longrightarrow>
           plan dyn n h d p = Inl AmbiguousReturn"
  proof (intro allI impI)
    fix pst
    assume pp: "preplan n h p ?st = Inr pst"
      and rc: "reaches_check dyn h (n - 1) (planner_commands h p) (initial_state pst) c"
    from fu obtain m where n: "n = Suc m" by (cases n) auto
    from preplan_records(1)[rule_format, OF pp vi] co
    have "cvis pst (key c) \<noteq> None" unfolding recorded_def by blast
    then have "commandVisibility (initial_state pst) (key c) \<noteq> None" by simp
    from reaches_check_fails[OF rc this ty] n
    have "buildCommands dyn n h p (initial_state pst) = Inl AmbiguousReturn" by simp
    with pp show "plan dyn n h d p = Inl AmbiguousReturn" by (simp add: plan_def)
  qed
qed

text \<open>
  A planner whose second command is a subplan; the subplanner replaces the state and
  then uses the returned state as an argument. And a planner that does the same in its
  own commands and then uses the return value of a command of another planner.
\<close>

definition nested_consumed_replace :: heap where
  "nested_consumed_replace =
     [[(math_add 5 example_address
          [LiteralValue ''uint256'' (uint256 1), LiteralValue ''uint256'' (uint256 2)], CT_CALL),
       (execute_subplan 4 [SubplanValue 1, StateValue], CT_SUBPLAN)],
      [(execute_subplan 0 [LiteralValue ''uint256'' (uint256 1)], CT_RAWCALL),
       (math_add 1 example_address
          [ReturnValue ''bytes[]'' (0, CT_RAWCALL), LiteralValue ''uint256'' (uint256 2)], CT_CALL)]]"

definition preempted_replace :: heap where
  "preempted_replace =
     [[(execute_subplan 0 [LiteralValue ''uint256'' (uint256 1)], CT_RAWCALL),
       (math_add 1 example_address
          [ReturnValue ''bytes[]'' (0, CT_RAWCALL), LiteralValue ''uint256'' (uint256 2)], CT_CALL),
       (math_add 2 example_address
          [ReturnValue ''uint256'' (3, CT_CALL), LiteralValue ''uint256'' (uint256 2)], CT_CALL)],
      [(math_add 3 example_address
          [LiteralValue ''uint256'' (uint256 1), LiteralValue ''uint256'' (uint256 2)], CT_CALL)]]"

theorem consumed_state_replacing_command_fails_witness:
  "plan dynamic_type (Suc (Suc (Suc 0))) nested_consumed_replace fresh 0 = Inl AmbiguousReturn"
proof -
  let ?h = nested_consumed_replace
  let ?A = "(math_add 5 example_address
          [LiteralValue ''uint256'' (uint256 1), LiteralValue ''uint256'' (uint256 2)], CT_CALL)"
  let ?S = "(execute_subplan 4 [SubplanValue 1, StateValue], CT_SUBPLAN)"
  let ?c = "(execute_subplan 0 [LiteralValue ''uint256'' (uint256 1)], CT_RAWCALL)"
  let ?D = "(math_add 1 example_address
          [ReturnValue ''bytes[]'' (0, CT_RAWCALL), LiteralValue ''uint256'' (uint256 2)], CT_CALL)"
  let ?st = "\<lparr>cvis = Map.empty, lvis = [], seen = fst fresh, planners = snd fresh\<rparr>"
  have p0: "planner_commands ?h 0 = [?A] @ ?S # []"
    by (simp add: nested_consumed_replace_def planner_commands_def)
  have p1: "planner_commands ?h 1 = [] @ ?c # [?D]"
    by (simp add: nested_consumed_replace_def planner_commands_def)
  have em: "?c \<in> set (emission (Suc (Suc (Suc 0))) ?h 0)"
    by (simp add: nested_consumed_replace_def planner_commands_def execute_subplan_def)
  have ty: "snd ?c = CT_RAWCALL \<or> snd ?c = CT_SUBPLAN" by simp
  have "?D \<in> set (planner_commands ?h 1)" unfolding p1 by simp
  then have "visited ?h (planner_commands ?h 1) ?D" by (rule visited.here)
  moreover have "?S \<in> set (planner_commands ?h 0)" unfolding p0 by simp
  moreover have "SubplanValue 1 \<in> set (args (fst ?S))" by (simp add: execute_subplan_def)
  ultimately have vi: "visited ?h (planner_commands ?h 0) ?D"
    using visited.nested by blast
  have co: "ReturnValue ''bytes[]'' (key ?c) \<in> set (args (fst ?D))"
    by (simp add: key_def execute_subplan_def math_add_def)
  have fu: "length ?h < Suc (Suc (Suc 0))" by (simp add: nested_consumed_replace_def)
  obtain pst where pp: "preplan (Suc (Suc (Suc 0))) ?h 0 ?st = Inr pst"
    and lv: "lvis pst = [(uint256 1, (0, CT_RAWCALL)), (uint256 2, (1, CT_CALL))]"
    and cv: "cvis pst (5, CT_CALL) = None"
    by (simp add: eval_defs nested_consumed_replace_def execute_subplan_def math_add_def)
  obtain out ps1 where bl: "build_loop dynamic_type (Suc (Suc 0)) ?h [?A] (initial_state pst) = Inr (out, ps1)"
    and l1: "literalSlotMap ps1 (uint256 1) = Some 0"
    by (simp add: lv cv eval_defs math_add_def dynamic_type_def)
  have b0: "build_loop dynamic_type (Suc 0) ?h [] ps1 = Inr ([], ps1)" by simp
  have ss: "subplan_step dynamic_type (Suc 0) ?h ?c ps1 = Inr ps1" by (simp add: subplan_step_def)
  have ba: "buildCommandArgs dynamic_type ?c (returnSlotMap ps1) (literalSlotMap ps1) (state ps1) = Inr [0]"
    using l1 by (simp add: buildCommandArgs_def inargs_def execute_subplan_def
        arg_slot_def dynamic_type_def DELEGATECALL_def CALLTYPE_MASK_def CALL_WITH_VALUE_def)
  from reaches_check.own[OF b0 ss ba, of "[?D]"]
  have "reaches_check dynamic_type ?h (Suc 0) (planner_commands ?h 1) ps1 ?c" unfolding p1 .
  from reaches_check.inner[OF bl _ _ this, of ?S "[]"]
  have rc: "reaches_check dynamic_type ?h (Suc (Suc (Suc 0)) - 1) (planner_commands ?h 0) (initial_state pst) ?c"
    unfolding p0 by (simp add: execute_subplan_def)
  from consumed_state_replacing_command_fails[OF em ty vi co fu, of dynamic_type fresh]
  have "\<forall>pst. preplan (Suc (Suc (Suc 0))) ?h 0 ?st = Inr pst \<longrightarrow>
           reaches_check dynamic_type ?h (Suc (Suc (Suc 0)) - 1) (planner_commands ?h 0) (initial_state pst) ?c \<longrightarrow>
           plan dynamic_type (Suc (Suc (Suc 0))) ?h fresh 0 = Inl AmbiguousReturn"
    by (rule conjunct2)
  from this[rule_format, OF pp rc] show ?thesis .
qed

text \<open>
  Claim C9 as stated fails on the second planner: the encoder emits the \<^verbatim>\<open>RAWCALL\<close>
  command, the second command consumes its return value, and \<^verbatim>\<open>plan()\<close> fails in the
  visibility walk with ``Return value ... is not visible here''.
\<close>

theorem preempted_replace_other_error:
  "(execute_subplan 0 [LiteralValue ''uint256'' (uint256 1)], CT_RAWCALL)
     \<in> set (emission (Suc (Suc (Suc 0))) preempted_replace 0)
   \<and> visited preempted_replace (planner_commands preempted_replace 0)
       (math_add 1 example_address
          [ReturnValue ''bytes[]'' (0, CT_RAWCALL), LiteralValue ''uint256'' (uint256 2)], CT_CALL)
   \<and> key (execute_subplan 0 [LiteralValue ''uint256'' (uint256 1)], CT_RAWCALL) = (0, CT_RAWCALL)
   \<and> plan dynamic_type (Suc (Suc (Suc 0))) preempted_replace fresh 0 = Inl ReturnNotVisible"
proof -
  have "(math_add 1 example_address
          [ReturnValue ''bytes[]'' (0, CT_RAWCALL), LiteralValue ''uint256'' (uint256 2)], CT_CALL)
        \<in> set (planner_commands preempted_replace 0)"
    by (simp add: preempted_replace_def planner_commands_def)
  then have "visited preempted_replace (planner_commands preempted_replace 0)
       (math_add 1 example_address
          [ReturnValue ''bytes[]'' (0, CT_RAWCALL), LiteralValue ''uint256'' (uint256 2)], CT_CALL)"
    by (rule visited.here)
  moreover have "(execute_subplan 0 [LiteralValue ''uint256'' (uint256 1)], CT_RAWCALL)
     \<in> set (emission (Suc (Suc (Suc 0))) preempted_replace 0)"
    by (simp add: preempted_replace_def planner_commands_def)
  moreover have "plan dynamic_type (Suc (Suc (Suc 0))) preempted_replace fresh 0 = Inl ReturnNotVisible"
    by (simp add: eval_defs preempted_replace_def execute_subplan_def math_add_def)
  ultimately show ?thesis by (simp add: key_def execute_subplan_def)
qed

section \<open>The scope of return values\<close>

text \<open>
  The commands that a command list exposes to the commands after it: its own commands,
  and those exposed by the subplanner of one of its commands that declares an output
  type. A subplan command without a declared output exposes nothing of its subplanner.
\<close>

inductive exposed :: "heap \<Rightarrow> command list \<Rightarrow> cmdkey \<Rightarrow> bool" for h where
  own: "x \<in> set cs \<Longrightarrow> exposed h cs (key x)"
| sub: "c \<in> set cs \<Longrightarrow> fragment_outputs (fst c) \<noteq> [] \<Longrightarrow> SubplanValue q \<in> set (args (fst c)) \<Longrightarrow>
     exposed h (planner_commands h q) k \<Longrightarrow> exposed h cs k"

text \<open>
  The commands that the subplan arguments in an argument list of command \<open>c\<close> expose to
  what follows in the walk.
\<close>

definition exposed_args :: "heap \<Rightarrow> command \<Rightarrow> arg list \<Rightarrow> cmdkey \<Rightarrow> bool" where
  "exposed_args h c as k \<longleftrightarrow>
     fragment_outputs (fst c) \<noteq> []
     \<and> (\<exists>q. SubplanValue q \<in> set as \<and> exposed h (planner_commands h q) k)"

lemma exposed_Nil [simp]: "\<not> exposed h [] k"
proof
  assume "exposed h [] k"
  then show False by cases simp_all
qed

lemma exposed_Cons:
  "exposed h (c # cs) k \<longleftrightarrow> k = key c \<or> exposed_args h c (args (fst c)) k \<or> exposed h cs k"
proof
  assume "exposed h (c # cs) k"
  then show "k = key c \<or> exposed_args h c (args (fst c)) k \<or> exposed h cs k"
  proof (cases rule: exposed.cases)
    case (own x)
    then have "x = c \<or> x \<in> set cs" by simp
    with own(1) show ?thesis using exposed.own[of x cs h] by blast
  next
    case (sub c' q)
    show ?thesis
    proof (cases "c' = c")
      case True
      with sub have "exposed_args h c (args (fst c)) k" unfolding exposed_args_def by blast
      then show ?thesis by simp
    next
      case False
      with sub have "c' \<in> set cs" by simp
      from exposed.sub[OF this sub(2) sub(3) sub(4)] show ?thesis by simp
    qed
  qed
next
  assume "k = key c \<or> exposed_args h c (args (fst c)) k \<or> exposed h cs k"
  then show "exposed h (c # cs) k"
  proof (elim disjE)
    assume "k = key c"
    moreover have "c \<in> set (c # cs)" by simp
    ultimately show ?thesis using exposed.own[of c "c # cs" h] by simp
  next
    assume "exposed_args h c (args (fst c)) k"
    then obtain q where o: "fragment_outputs (fst c) \<noteq> []"
      and a: "SubplanValue q \<in> set (args (fst c))"
      and b: "exposed h (planner_commands h q) k"
      unfolding exposed_args_def by blast
    have "c \<in> set (c # cs)" by simp
    from exposed.sub[OF this o a b] show ?thesis .
  next
    assume "exposed h cs k"
    then show ?thesis
    proof (cases rule: exposed.cases)
      case (own x)
      then have "x \<in> set (c # cs)" by simp
      from exposed.own[OF this, of h] own(1) show ?thesis by simp
    next
      case (sub c' q)
      from sub(1) have "c' \<in> set (c # cs)" by simp
      from exposed.sub[OF this sub(2) sub(3) sub(4)] show ?thesis .
    qed
  qed
qed

lemma exposed_args_Nil [simp]: "\<not> exposed_args h c [] k"
  by (simp add: exposed_args_def)

lemma exposed_args_Cons:
  "exposed_args h c (a # as) k \<longleftrightarrow>
     (fragment_outputs (fst c) \<noteq> [] \<and> (\<exists>q. a = SubplanValue q \<and> exposed h (planner_commands h q) k))
     \<or> exposed_args h c as k"
  by (auto simp: exposed_args_def)

lemma exposed_args_inargs:
  assumes "inargs c = Inr ias"
  shows "exposed_args h c ias k \<longleftrightarrow> exposed_args h c (args (fst c)) k"
  using inargs_subplans[OF assms] unfolding exposed_args_def by blast

text \<open>
  What a walk that returns has added to \<^verbatim>\<open>seen\<close>: the commands exposed by what it
  walked.
\<close>

lemma preplan_seen:
  "(preplan n h p st = Inr st' \<longrightarrow> seen st' = seen st \<union> {k. exposed h (planner_commands h p) k})"
  "(preplan_commands n h cs st = Inr st' \<longrightarrow> seen st' = seen st \<union> {k. exposed h cs k})"
  "(preplan_args n h c as st = Inr st' \<longrightarrow> seen st' = seen st \<union> {k. exposed_args h c as k})"
proof (induction n h p st and n h cs st and n h c as st arbitrary: st' and st' and st'
       rule: preplan_preplan_commands_preplan_args.induct)
  case (1 h p st)
  then show ?case by simp
next
  case (2 n h p st)
  show ?case
  proof
    assume "preplan (Suc n) h p st = Inr st'"
    then have np: "p \<notin> planners st"
      and pc: "preplan_commands n h (planner_commands h p) (st\<lparr>planners := insert p (planners st)\<rparr>) = Inr st'"
      by (auto split: if_splits)
    from 2[OF np] pc show "seen st' = seen st \<union> {k. exposed h (planner_commands h p) k}" by simp
  qed
next
  case (3 n h st)
  then show ?case by simp
next
  case (4 n h c cs st)
  show ?case
  proof
    assume a: "preplan_commands n h (c # cs) st = Inr st'"
    then obtain ias st1 where i: "inargs c = Inr ias" and p1: "preplan_args n h c ias st = Inr st1"
      and p2: "preplan_commands n h cs (st1\<lparr>seen := insert (key c) (seen st1)\<rparr>) = Inr st'"
      by (auto split: sum.splits)
    from 4(1)[OF i] p1 have s1: "seen st1 = seen st \<union> {k. exposed_args h c ias k}" by simp
    from 4(2)[OF i p1] p2 have "seen st' = insert (key c) (seen st1) \<union> {k. exposed h cs k}" by simp
    with s1 exposed_args_inargs[OF i, of h]
    show "seen st' = seen st \<union> {k. exposed h (c # cs) k}"
      unfolding exposed_Cons by blast
  qed
next
  case (5 n h c st)
  then show ?case by simp
next
  case (6 n h c a as st)
  show ?case
  proof
    assume f: "preplan_args n h c (a # as) st = Inr st'"
    show "seen st' = seen st \<union> {k. exposed_args h c (a # as) k}"
    proof (cases a)
      case (LiteralValue p v)
      with 6(1)[OF LiteralValue] f
      have "seen st' = seen st \<union> {k. exposed_args h c as k}" by simp
      with LiteralValue show ?thesis unfolding exposed_args_Cons by blast
    next
      case (ReturnValue p k)
      with f have i: "\<not> k \<notin> seen st" by (auto split: if_splits)
      from 6(2)[OF ReturnValue i] f ReturnValue i
      have "seen st' = seen st \<union> {k. exposed_args h c as k}" by simp
      with ReturnValue show ?thesis unfolding exposed_args_Cons by blast
    next
      case StateValue
      with 6(3)[OF StateValue] f
      have "seen st' = seen st \<union> {k. exposed_args h c as k}" by simp
      with StateValue show ?thesis unfolding exposed_args_Cons by blast
    next
      case (SubplanValue q)
      with f obtain st1 where a1: "preplan n h q st = Inr st1"
        and a2: "preplan_args n h c as (if fragment_outputs (fst c) = [] then st1\<lparr>seen := seen st\<rparr> else st1) = Inr st'"
        by (auto split: sum.splits)
      from 6(4)[OF SubplanValue] a1
      have s1: "seen st1 = seen st \<union> {k. exposed h (planner_commands h q) k}" by simp
      from 6(5)[OF SubplanValue a1] a2
      have s2: "seen st' = seen (if fragment_outputs (fst c) = [] then st1\<lparr>seen := seen st\<rparr> else st1)
          \<union> {k. exposed_args h c as k}" by simp
      show ?thesis
      proof (cases "fragment_outputs (fst c) = []")
        case True
        with s2 have "seen st' = seen st \<union> {k. exposed_args h c as k}" by simp
        with True show ?thesis by (simp add: exposed_args_def)
      next
        case False
        with s2 s1 have "seen st' = seen st \<union> {k. exposed h (planner_commands h q) k}
           \<union> {k. exposed_args h c as k}" by simp
        with False SubplanValue show ?thesis unfolding exposed_args_Cons by blast
      qed
    next
      case (Value p)
      with f show ?thesis by simp
    qed
  qed
qed

text \<open>The two loops of the walk run through a list part by part.\<close>

lemma preplan_commands_append:
  "preplan_commands n h (pre @ cs) st =
     (case preplan_commands n h pre st of Inl e \<Rightarrow> Inl e | Inr st1 \<Rightarrow> preplan_commands n h cs st1)"
proof (induction pre arbitrary: st)
  case Nil
  then show ?case by simp
next
  case (Cons c pre)
  then show ?case by (simp split: sum.splits)
qed

lemma preplan_args_append:
  "preplan_args n h c (as1 @ as) st =
     (case preplan_args n h c as1 st of Inl e \<Rightarrow> Inl e | Inr st1 \<Rightarrow> preplan_args n h c as st1)"
proof (induction as1 arbitrary: st)
  case Nil
  then show ?case by simp
next
  case (Cons a as1)
  then show ?case by (cases a) (simp_all split: sum.splits)
qed

text \<open>
  A command list exposes no command other than its own when each of its commands with
  a subplan argument declares no output.
\<close>

lemma not_exposed:
  assumes "\<forall>c \<in> set cs. key c \<noteq> k
             \<and> (fragment_outputs (fst c) = [] \<or> (\<forall>q. SubplanValue q \<notin> set (args (fst c))))"
  shows "\<not> exposed h cs k"
proof
  assume "exposed h cs k"
  then show False
  proof (cases rule: exposed.cases)
    case (own x)
    with assms show ?thesis by blast
  next
    case (sub c q)
    with assms show ?thesis by blast
  qed
qed

text \<open>
  Claim C5 says that a return value produced inside a subplan whose call declares no
  output type is unbound in a command after the subplan and bound inside it, and that
  it stays visible after a subplan whose call declares an output. The walk fails at the
  first error it meets, so a reference after the subplan gives the unbound-return error
  only if the walk gets to it; and a command is visible wherever it is exposed, whatever
  subplan it also sits in. As amended: in every scope of the walk, the commands of the
  planned planner or of a subplanner entered in the state \<open>st\<close>, when the walk has passed
  the commands \<open>pre\<close> before a command \<open>R\<close> and the arguments \<open>as1\<close> of \<open>R\<close> before a Return
  argument, the producing command is visible exactly if it was in \<^verbatim>\<open>seen\<close> when the
  scope was entered or is exposed by \<open>pre\<close> or by the subplan arguments in \<open>as1\<close>. So it
  is not visible if it was not in \<^verbatim>\<open>seen\<close>, is none of the commands of \<open>pre\<close>, and
  every subplan command before the reference declares no output; it is visible if it
  is one of the commands of \<open>pre\<close>, or a command of the subplanner of one of them that
  declares an output. If it is visible, the walk records \<open>R\<close> as its consumer and goes
  on with the next argument; if not, the walk fails with ``Return value ... is not
  visible here'', and so does \<^verbatim>\<open>plan()\<close> when the scope is the planned planner.
\<close>

theorem scope_hiding:
  assumes w1: "preplan_commands n h pre st = Inr st1"
      and ia: "inargs R = Inr (as1 @ ReturnValue t k # as2)"
      and w2: "preplan_args n h R as1 st1 = Inr st2"
  shows "(k \<in> seen st2 \<longleftrightarrow> k \<in> seen st \<or> exposed h pre k \<or> exposed_args h R as1 k)
     \<and> (k \<notin> seen st
          \<and> (\<forall>c \<in> set pre. key c \<noteq> k
                \<and> (fragment_outputs (fst c) = [] \<or> (\<forall>q. SubplanValue q \<notin> set (args (fst c)))))
          \<and> (\<forall>q. SubplanValue q \<notin> set as1) \<longrightarrow>
        k \<notin> seen st2)
     \<and> (\<forall>X. X \<in> set pre \<and> key X = k \<longrightarrow> k \<in> seen st2)
     \<and> (\<forall>c q X. c \<in> set pre \<and> fragment_outputs (fst c) \<noteq> [] \<and> SubplanValue q \<in> set (args (fst c))
            \<and> X \<in> set (planner_commands h q) \<and> key X = k \<longrightarrow>
          k \<in> seen st2)
     \<and> preplan_commands n h (pre @ R # post) st =
         (if k \<in> seen st2 then
            (case preplan_args n h R as2 (st2\<lparr>cvis := (cvis st2)(k \<mapsto> key R)\<rparr>) of
               Inl e \<Rightarrow> Inl e
             | Inr st3 \<Rightarrow> preplan_commands n h post (st3\<lparr>seen := insert (key R) (seen st3)\<rparr>))
          else Inl ReturnNotVisible)
     \<and> (planner_commands h p = pre @ R # post \<and> p \<notin> snd d
          \<and> st = \<lparr>cvis = Map.empty, lvis = [], seen = fst d, planners = insert p (snd d)\<rparr>
          \<and> k \<notin> seen st2 \<longrightarrow>
        plan dyn (Suc n) h d p = Inl ReturnNotVisible)"
proof -
  from preplan_seen(2)[of n h pre st st1] w1
  have s1: "seen st1 = seen st \<union> {k. exposed h pre k}" by simp
  from preplan_seen(3)[of n h R as1 st1 st2] w2
  have s2: "seen st2 = seen st1 \<union> {k. exposed_args h R as1 k}" by simp
  from s1 s2 have v: "k \<in> seen st2 \<longleftrightarrow> k \<in> seen st \<or> exposed h pre k \<or> exposed_args h R as1 k"
    by blast
  have a: "k \<notin> seen st
          \<and> (\<forall>c \<in> set pre. key c \<noteq> k
                \<and> (fragment_outputs (fst c) = [] \<or> (\<forall>q. SubplanValue q \<notin> set (args (fst c)))))
          \<and> (\<forall>q. SubplanValue q \<notin> set as1) \<longrightarrow>
        k \<notin> seen st2"
  proof
    assume h: "k \<notin> seen st
          \<and> (\<forall>c \<in> set pre. key c \<noteq> k
                \<and> (fragment_outputs (fst c) = [] \<or> (\<forall>q. SubplanValue q \<notin> set (args (fst c)))))
          \<and> (\<forall>q. SubplanValue q \<notin> set as1)"
    then have "\<not> exposed h pre k" using not_exposed[of pre k h] by blast
    moreover from h have "\<not> exposed_args h R as1 k" by (simp add: exposed_args_def)
    ultimately show "k \<notin> seen st2" using v h by blast
  qed
  have b: "\<forall>X. X \<in> set pre \<and> key X = k \<longrightarrow> k \<in> seen st2"
  proof (intro allI impI)
    fix X assume "X \<in> set pre \<and> key X = k"
    with exposed.own[of X pre h] have "exposed h pre k" by blast
    with v show "k \<in> seen st2" by simp
  qed
  have c: "\<forall>c q X. c \<in> set pre \<and> fragment_outputs (fst c) \<noteq> [] \<and> SubplanValue q \<in> set (args (fst c))
            \<and> X \<in> set (planner_commands h q) \<and> key X = k \<longrightarrow>
          k \<in> seen st2"
  proof (intro allI impI)
    fix c q X
    assume h: "c \<in> set pre \<and> fragment_outputs (fst c) \<noteq> [] \<and> SubplanValue q \<in> set (args (fst c))
            \<and> X \<in> set (planner_commands h q) \<and> key X = k"
    with exposed.own[of X "planner_commands h q" h] have "exposed h (planner_commands h q) k" by blast
    with h exposed.sub[of c pre q h k] have "exposed h pre k" by blast
    with v show "k \<in> seen st2" by simp
  qed
  have e: "preplan_commands n h (pre @ R # post) st =
         (if k \<in> seen st2 then
            (case preplan_args n h R as2 (st2\<lparr>cvis := (cvis st2)(k \<mapsto> key R)\<rparr>) of
               Inl e \<Rightarrow> Inl e
             | Inr st3 \<Rightarrow> preplan_commands n h post (st3\<lparr>seen := insert (key R) (seen st3)\<rparr>))
          else Inl ReturnNotVisible)"
    unfolding preplan_commands_append using w1 ia w2
    by (simp add: preplan_args_append)
  have f: "planner_commands h p = pre @ R # post \<and> p \<notin> snd d
          \<and> st = \<lparr>cvis = Map.empty, lvis = [], seen = fst d, planners = insert p (snd d)\<rparr>
          \<and> k \<notin> seen st2 \<longrightarrow>
        plan dyn (Suc n) h d p = Inl ReturnNotVisible"
  proof
    assume a: "planner_commands h p = pre @ R # post \<and> p \<notin> snd d
          \<and> st = \<lparr>cvis = Map.empty, lvis = [], seen = fst d, planners = insert p (snd d)\<rparr>
          \<and> k \<notin> seen st2"
    with e have "preplan_commands n h (planner_commands h p)
        \<lparr>cvis = Map.empty, lvis = [], seen = fst d, planners = insert p (snd d)\<rparr> = Inl ReturnNotVisible"
      by simp
    with a show "plan dyn (Suc n) h d p = Inl ReturnNotVisible" by (simp add: plan_def)
  qed
  from v a b c e f show ?thesis by (intro conjI)
qed

text \<open>
  The planner of the claim: a subplan command without a declared output, and after it a
  command that uses the return value of the first command of the subplanner, which the
  second command of the subplanner uses too. And the same planner with a second subplan
  command on the same subplanner before the reference.
\<close>

definition view_subplan :: "nat \<Rightarrow> arg list \<Rightarrow> FunctionCall" where
  "view_subplan i as =
     \<lparr>ident = i, contract_address = example_address, flags = DELEGATECALL,
      fragment_signature = [0x3F, 0x6B, 0x59, 0x6B], fragment_outputs = [],
      args = as, callvalue = None\<rparr>"

definition read_only_scope :: heap where
  "read_only_scope =
     [[(view_subplan 0 [SubplanValue 1, StateValue], CT_SUBPLAN),
       (math_add 3 example_address
          [ReturnValue ''uint256'' (1, CT_CALL), LiteralValue ''uint256'' (uint256 4)], CT_CALL)],
      [(math_add 1 example_address
          [LiteralValue ''uint256'' (uint256 1), LiteralValue ''uint256'' (uint256 2)], CT_CALL),
       (math_add 2 example_address
          [ReturnValue ''uint256'' (1, CT_CALL), LiteralValue ''uint256'' (uint256 3)], CT_CALL)]]"

definition subplanner_used_twice :: heap where
  "subplanner_used_twice =
     [[(view_subplan 0 [SubplanValue 1, StateValue], CT_SUBPLAN),
       (view_subplan 4 [SubplanValue 1, StateValue], CT_SUBPLAN),
       (math_add 3 example_address
          [ReturnValue ''uint256'' (1, CT_CALL), LiteralValue ''uint256'' (uint256 4)], CT_CALL)],
      [(math_add 1 example_address
          [LiteralValue ''uint256'' (uint256 1), LiteralValue ''uint256'' (uint256 2)], CT_CALL),
       (math_add 2 example_address
          [ReturnValue ''uint256'' (1, CT_CALL), LiteralValue ''uint256'' (uint256 3)], CT_CALL)]]"

text \<open>The theorem gives the unbound-return error for the first planner.\<close>

theorem scope_hiding_witness:
  "plan dynamic_type (Suc (Suc (Suc 0))) read_only_scope fresh 0 = Inl ReturnNotVisible"
proof -
  let ?h = read_only_scope
  let ?c = "(view_subplan 0 [SubplanValue 1, StateValue], CT_SUBPLAN)"
  let ?R = "(math_add 3 example_address
          [ReturnValue ''uint256'' (1, CT_CALL), LiteralValue ''uint256'' (uint256 4)], CT_CALL)"
  let ?st = "\<lparr>cvis = Map.empty, lvis = [], seen = fst fresh, planners = insert 0 (snd fresh)\<rparr>"
  have pc: "planner_commands ?h 0 = [?c] @ ?R # []"
    by (simp add: read_only_scope_def planner_commands_def)
  obtain st1 where w1: "preplan_commands (Suc (Suc 0)) ?h [?c] ?st = Inr st1"
    by (simp add: eval_defs read_only_scope_def view_subplan_def math_add_def)
  have ia: "inargs ?R = Inr ([] @ ReturnValue ''uint256'' (1, CT_CALL) # [LiteralValue ''uint256'' (uint256 4)])"
    by (simp add: inargs_def math_add_def CALL_def DELEGATECALL_def CALLTYPE_MASK_def CALL_WITH_VALUE_def)
  have w2: "preplan_args (Suc (Suc 0)) ?h ?R [] st1 = Inr st1" by simp
  note t = scope_hiding[OF w1 ia w2, of "[]" 0 fresh dynamic_type]
  have a: "(1, CT_CALL) \<notin> seen ?st" by (simp add: fresh_def)
  have b: "\<forall>c \<in> set [?c]. key c \<noteq> (1, CT_CALL)
      \<and> (fragment_outputs (fst c) = [] \<or> (\<forall>q. SubplanValue q \<notin> set (args (fst c))))"
    by (simp add: key_def view_subplan_def)
  have c: "\<forall>q. SubplanValue q \<notin> set []" by simp
  from t[THEN conjunct2, THEN conjunct1] a b c have hid: "(1, CT_CALL) \<notin> seen st1" by blast
  have d: "0 \<notin> snd fresh" by (simp add: fresh_def)
  from t[THEN conjunct2, THEN conjunct2, THEN conjunct2, THEN conjunct2, THEN conjunct2] pc d hid
  show ?thesis by blast
qed

text \<open>
  Claim C5 as stated fails on the second planner: the walk enters the subplanner a
  second time and \<^verbatim>\<open>plan()\<close> fails with ``A planner cannot contain itself'', before the
  walk gets to the reference.
\<close>

theorem subplanner_used_twice_other_error:
  "(math_add 1 example_address
      [LiteralValue ''uint256'' (uint256 1), LiteralValue ''uint256'' (uint256 2)], CT_CALL)
     \<in> set (planner_commands subplanner_used_twice 1)
   \<and> planner_commands subplanner_used_twice 0 =
       [(view_subplan 0 [SubplanValue 1, StateValue], CT_SUBPLAN),
        (view_subplan 4 [SubplanValue 1, StateValue], CT_SUBPLAN),
        (math_add 3 example_address
           [ReturnValue ''uint256'' (1, CT_CALL), LiteralValue ''uint256'' (uint256 4)], CT_CALL)]
   \<and> fragment_outputs (view_subplan 0 [SubplanValue 1, StateValue]) = []
   \<and> plan dynamic_type (Suc (Suc (Suc 0))) subplanner_used_twice fresh 0 = Inl PlannerContainsItself"
  by (simp add: eval_defs subplanner_used_twice_def view_subplan_def math_add_def)

section \<open>The slots of the literals\<close>








text \<open>
  What the encoder appends to the state: an empty byte string for a return value that
  gets a new slot, and the serialised commands of a subplanner.
\<close>

definition appended :: "bytes list \<Rightarrow> bool" where
  "appended ext \<longleftrightarrow> (\<forall>x \<in> set ext. x = [] \<or> (\<exists>sub. encode_bytes32_array sub = Inr x))"

lemma appended_simps [simp]:
  "appended []"
  "appended (a @ b) \<longleftrightarrow> appended a \<and> appended b"
  "appended [[]]"
  by (auto simp: appended_def)










end
